theory Spec2Isabelle
  imports Main "HOL-Library.Word" "HOL-Library.Monad_Syntax"
    "HOL-Library.Char_ord" "HOL-Library.List_Lexorder" "HOL-Library.Option_ord"
begin

unbundle bit_operations_syntax

section \<open>The icon cache of the Nautilus icon factory\<close>

text \<open>
  The development embeds the cache of \<^verbatim>\<open>libnautilus-private/nautilus-icon-factory.c\<close>:
  the hash table from cache keys to reference-counted icons, the circular doubly-linked
  list of recently used icons that is threaded through the icons themselves, the sweep,
  and the lookup \<^verbatim>\<open>get_icon_from_cache\<close>.

  The C program mutates one global factory and the icons it has allocated. The model
  passes that memory explicitly: every C function becomes a function from the memory
  before the call to the memory after it. A failed \<^verbatim>\<open>g_assert\<close> and a read
  or write through a pointer to no live object end the C program; the model returns
  \<open>None\<close> there, so that a result \<open>Some\<close> says the call ran to its end.
\<close>

subsection \<open>Data\<close>

text \<open>
  A \<^verbatim>\<open>CircularList *\<close> is \<^verbatim>\<open>NULL\<close>, the address of the factory's
  \<^verbatim>\<open>recently_used_dummy_head\<close>, or the address of the
  \<^verbatim>\<open>recently_used_node\<close> embedded in the icon allocated at some address.
\<close>

datatype cptr = Null | Head | Node nat

record CircularList =
  c_next :: cptr
  c_prev :: cptr

text \<open>
  \<^verbatim>\<open>CacheKey\<close>: the two strings are \<^verbatim>\<open>char *\<close> and may be
  \<^verbatim>\<open>NULL\<close>; \<^verbatim>\<open>nominal_size\<close> is a \<^verbatim>\<open>guint\<close>;
  \<^verbatim>\<open>force_nominal\<close> is a \<^verbatim>\<open>gboolean\<close>.
\<close>

record CacheKey =
  name :: "string option"
  modifier :: "string option"
  nominal_size :: "32 word"
  force_nominal :: bool

text \<open>
  \<^verbatim>\<open>CacheIcon\<close>. Of the pixbuf the cache reads only the reference count of the
  \<^verbatim>\<open>GObject\<close> (each icon is made from a pixbuf of its own), so the field
  \<open>pixbuf_ref_count\<close> stands for \<^verbatim>\<open>G_OBJECT (icon->pixbuf)->ref_count\<close>.
  The display name, the embedded text rectangle and the attach points are copied out to
  callers and take no part in the life of an entry; they are left out. The two
  \<^verbatim>\<open>guint\<close> counters of the program (\<^verbatim>\<open>ref_count\<close> here,
  \<^verbatim>\<open>recently_used_count\<close> below) are natural numbers: an increment could only
  wrap with more than four thousand million live references, and the decrement of
  \<^verbatim>\<open>recently_used_count\<close>, which the program does not guard, wraps explicitly
  (\<open>guint_dec\<close>).
\<close>

record CacheIcon =
  ref_count :: nat
  pixbuf_ref_count :: nat
  mtime :: int
  recently_used_node :: CircularList
  age :: int

text \<open>
  \<^verbatim>\<open>NautilusIconFactory\<close>, with the memory of the icons. The hash table
  \<open>icon_cache\<close> is the list of its (key, icon address) pairs in the order in which
  \<^verbatim>\<open>g_hash_table_foreach_remove\<close> visits them; \<open>icons\<close> maps the address of
  every live \<^verbatim>\<open>CacheIcon\<close> to its contents and \<open>next_free\<close> is the address
  the next allocation returns. The thumbnail frame, the icon theme, the thumbnail factory,
  the table of mime types and the list of asynchronous loads are not part of the cache.
\<close>

record NautilusIconFactory =
  icon_cache :: "(CacheKey \<times> nat) list"
  recently_used_dummy_head :: CircularList
  recently_used_count :: nat
  sweep_timer :: nat
  fallback_icon :: nat
  icons :: "nat \<Rightarrow> CacheIcon option"
  next_free :: nat

definition ICON_CACHE_COUNT :: nat where
  "ICON_CACHE_COUNT = 20"

definition ICON_MAX_AGE :: int where
  "ICON_MAX_AGE = 10"

definition guint_dec :: "nat \<Rightarrow> nat" where
  "guint_dec n = (if n = 0 then 2 ^ 32 - 1 else n - 1)"

subsection \<open>Cache keys\<close>

text \<open>
  Modelled from the spec: \<^verbatim>\<open>eel_strcmp\<close> belongs to the eel library and is not
  part of this source tree. The specification describes the comparison of the two key
  strings as byte-exact and null-safe: the result is zero exactly when both strings are
  absent or both are present with the same bytes. The sign of a non-zero result follows
  the byte order, an absent string first; the cache only tests the result against zero.
  (A library that read an absent string as the empty one would, beyond this, identify a
  \<^verbatim>\<open>NULL\<close> modifier with the modifier \<^verbatim>\<open>""\<close>.)
\<close>

definition eel_strcmp :: "string option \<Rightarrow> string option \<Rightarrow> int" where
  "eel_strcmp string_a string_b =
     (if string_a = string_b then 0 else if string_a < string_b then - 1 else 1)"

definition cache_key_equal :: "CacheKey \<Rightarrow> CacheKey \<Rightarrow> bool" where
  "cache_key_equal key_a key_b \<longleftrightarrow>
     eel_strcmp (name key_a) (name key_b) = 0 \<and>
     nominal_size key_a = nominal_size key_b \<and>
     force_nominal key_a = force_nominal key_b \<and>
     eel_strcmp (modifier key_a) (modifier key_b) = 0"

text \<open>
  \<^verbatim>\<open>cache_key_hash\<close>. GLib's \<^verbatim>\<open>g_str_hash\<close> is not part of the source
  tree either and is a parameter. It reads the bytes of its argument, so a key without a
  name has no hash: the program would read through \<^verbatim>\<open>NULL\<close>.
\<close>

definition cache_key_hash :: "(string \<Rightarrow> 32 word) \<Rightarrow> CacheKey \<Rightarrow> 32 word option" where
  "cache_key_hash g_str_hash key =
     (case name key of
        None \<Rightarrow> None
      | Some n \<Rightarrow>
          let hash = g_str_hash n XOR
                (push_bit 4 (nominal_size key) + (if force_nominal key then 1 else 0))
          in Some (case modifier key of
                     None \<Rightarrow> hash
                   | Some m \<Rightarrow> hash XOR g_str_hash m))"

subsection \<open>Reading and writing list pointers\<close>

fun get_next :: "cptr \<Rightarrow> NautilusIconFactory \<Rightarrow> cptr option" where
  "get_next Null s = None"
| "get_next Head s = Some (c_next (recently_used_dummy_head s))"
| "get_next (Node a) s = map_option (\<lambda>i. c_next (recently_used_node i)) (icons s a)"

fun get_prev :: "cptr \<Rightarrow> NautilusIconFactory \<Rightarrow> cptr option" where
  "get_prev Null s = None"
| "get_prev Head s = Some (c_prev (recently_used_dummy_head s))"
| "get_prev (Node a) s = map_option (\<lambda>i. c_prev (recently_used_node i)) (icons s a)"

fun set_next :: "cptr \<Rightarrow> cptr \<Rightarrow> NautilusIconFactory \<Rightarrow> NautilusIconFactory option" where
  "set_next Null v s = None"
| "set_next Head v s =
     Some (s\<lparr>recently_used_dummy_head := (recently_used_dummy_head s)\<lparr>c_next := v\<rparr>\<rparr>)"
| "set_next (Node a) v s =
     (case icons s a of
        None \<Rightarrow> None
      | Some i \<Rightarrow>
          Some (s\<lparr>icons := (icons s)(a \<mapsto> i\<lparr>recently_used_node :=
                  (recently_used_node i)\<lparr>c_next := v\<rparr>\<rparr>)\<rparr>))"

fun set_prev :: "cptr \<Rightarrow> cptr \<Rightarrow> NautilusIconFactory \<Rightarrow> NautilusIconFactory option" where
  "set_prev Null v s = None"
| "set_prev Head v s =
     Some (s\<lparr>recently_used_dummy_head := (recently_used_dummy_head s)\<lparr>c_prev := v\<rparr>\<rparr>)"
| "set_prev (Node a) v s =
     (case icons s a of
        None \<Rightarrow> None
      | Some i \<Rightarrow>
          Some (s\<lparr>icons := (icons s)(a \<mapsto> i\<lparr>recently_used_node :=
                  (recently_used_node i)\<lparr>c_prev := v\<rparr>\<rparr>)\<rparr>))"

text \<open>
  The two statements \<^verbatim>\<open>node->next->prev = node->prev; node->prev->next = node->next;\<close>
  that take a node out of its place; \<^verbatim>\<open>mark_recently_used\<close> and
  \<^verbatim>\<open>cache_icon_unref\<close> both contain them. Each statement reads the memory the
  statement before it left.
\<close>

definition unlink_in_place :: "cptr \<Rightarrow> NautilusIconFactory \<Rightarrow> NautilusIconFactory option" where
  "unlink_in_place node s = do {
     nn \<leftarrow> get_next node s;
     np \<leftarrow> get_prev node s;
     s1 \<leftarrow> set_prev nn np s;
     np1 \<leftarrow> get_prev node s1;
     nn1 \<leftarrow> get_next node s1;
     set_next np1 nn1 s1
   }"

subsection \<open>Reference counting\<close>

definition cache_icon_ref :: "nat \<Rightarrow> NautilusIconFactory \<Rightarrow> NautilusIconFactory option" where
  "cache_icon_ref a s =
     (case icons s a of
        None \<Rightarrow> None
      | Some icon \<Rightarrow>
          if ref_count icon \<ge> 1
          then Some (s\<lparr>icons := (icons s)(a \<mapsto> icon\<lparr>ref_count := ref_count icon + 1\<rparr>)\<rparr>)
          else None)"

text \<open>
  \<^verbatim>\<open>cache_icon_unref\<close>: with more than one reference the count is decremented and
  the function returns. Otherwise the count becomes zero, the node is taken out of the
  recently-used list if its \<^verbatim>\<open>next\<close> pointer is not \<^verbatim>\<open>NULL\<close>, and the
  icon is freed (the pixbuf reference is dropped and the memory released): its address is
  no longer live.
\<close>

definition cache_icon_unref :: "nat \<Rightarrow> NautilusIconFactory \<Rightarrow> NautilusIconFactory option" where
  "cache_icon_unref a s =
     (case icons s a of
        None \<Rightarrow> None
      | Some icon \<Rightarrow>
          if \<not> ref_count icon \<ge> 1 then None
          else if ref_count icon > 1
          then Some (s\<lparr>icons := (icons s)(a \<mapsto> icon\<lparr>ref_count := ref_count icon - 1\<rparr>)\<rparr>)
          else do {
            let s0 = s\<lparr>icons := (icons s)(a \<mapsto> icon\<lparr>ref_count := 0\<rparr>)\<rparr>;
            nn \<leftarrow> get_next (Node a) s0;
            s1 \<leftarrow> (if nn \<noteq> Null then do {
                     sa \<leftarrow> unlink_in_place (Node a) s0;
                     sb \<leftarrow> set_next (Node a) Null sa;
                     sc \<leftarrow> set_prev (Node a) Null sb;
                     Some (sc\<lparr>recently_used_count := guint_dec (recently_used_count sc)\<rparr>)
                   } else Some s0);
            Some (s1\<lparr>icons := (icons s1)(a := None)\<rparr>)
          })"

subsection \<open>The recently-used list\<close>

text \<open>
  \<^verbatim>\<open>mark_recently_used\<close>, statement by statement. \<open>bump_last_node\<close> is the
  branch that removes the last node of a full list.
\<close>

definition bump_last_node :: "NautilusIconFactory \<Rightarrow> NautilusIconFactory option" where
  "bump_last_node s = do {
     last_node \<leftarrow> get_prev Head s;
     lp \<leftarrow> get_prev last_node s;
     s1 \<leftarrow> set_prev Head lp s;
     lp1 \<leftarrow> get_prev last_node s1;
     s2 \<leftarrow> set_next lp1 Head s1;
     s3 \<leftarrow> set_prev last_node Null s2;
     set_next last_node Null s3
   }"

definition insert_at_head :: "cptr \<Rightarrow> NautilusIconFactory \<Rightarrow> NautilusIconFactory option" where
  "insert_at_head node s = do {
     s1 \<leftarrow> set_prev node Head s;
     hn \<leftarrow> get_next Head s1;
     s2 \<leftarrow> set_next node hn s1;
     nn \<leftarrow> get_next node s2;
     s3 \<leftarrow> set_prev nn node s2;
     set_next Head node s3
   }"

definition mark_recently_used :: "cptr \<Rightarrow> NautilusIconFactory \<Rightarrow> NautilusIconFactory option" where
  "mark_recently_used node s = do {
     np \<leftarrow> get_prev node s;
     if np \<noteq> Head then do {
       nn \<leftarrow> get_next node s;
       s1 \<leftarrow> (if nn \<noteq> Null then unlink_in_place node s
             else if recently_used_count s < ICON_CACHE_COUNT
             then Some (s\<lparr>recently_used_count := recently_used_count s + 1\<rparr>)
             else bump_last_node s);
       insert_at_head node s1
     } else Some s
   }"

subsection \<open>The hash table\<close>

text \<open>
  GLib's hash table is created with \<^verbatim>\<open>cache_key_hash\<close>,
  \<^verbatim>\<open>cache_key_equal\<close>, \<^verbatim>\<open>cache_key_destroy\<close> and
  \<^verbatim>\<open>cache_icon_unref\<close>. Its operations follow GLib's documented behaviour: a
  lookup finds the entry whose key the equality function accepts; an insertion under a key
  that is present keeps the place of the entry, stores the new value and hands the old
  value to \<^verbatim>\<open>cache_icon_unref\<close>; a removal hands the value of the removed entry
  to \<^verbatim>\<open>cache_icon_unref\<close>. Keys are values here, so
  \<^verbatim>\<open>cache_key_destroy\<close> has nothing to do.

  The table hashes the key of every operation with \<^verbatim>\<open>cache_key_hash\<close>, which
  reads the bytes of the name: an insertion or a removal under a key without a name reads
  through \<^verbatim>\<open>NULL\<close> and has no result. The value of the hash only chooses the
  bucket and is not part of the model. \<open>g_hash_table_lookup\<close> is the search among the
  entries; the program looks up only names that have passed the \<^verbatim>\<open>NULL\<close> test of
  \<^verbatim>\<open>get_icon_from_cache\<close>.
\<close>

fun g_hash_table_lookup :: "(CacheKey \<times> nat) list \<Rightarrow> CacheKey \<Rightarrow> nat option" where
  "g_hash_table_lookup [] key = None"
| "g_hash_table_lookup ((k, v) # rest) key =
     (if cache_key_equal k key then Some v else g_hash_table_lookup rest key)"

fun table_store :: "CacheKey \<Rightarrow> nat \<Rightarrow> (CacheKey \<times> nat) list \<Rightarrow> (CacheKey \<times> nat) list" where
  "table_store key v [] = [(key, v)]"
| "table_store key v ((k, w) # rest) =
     (if cache_key_equal k key then (k, v) # rest else (k, w) # table_store key v rest)"

fun table_delete :: "CacheKey \<Rightarrow> (CacheKey \<times> nat) list \<Rightarrow> (CacheKey \<times> nat) list" where
  "table_delete key [] = []"
| "table_delete key ((k, w) # rest) =
     (if cache_key_equal k key then rest else (k, w) # table_delete key rest)"

definition g_hash_table_insert ::
    "CacheKey \<Rightarrow> nat \<Rightarrow> NautilusIconFactory \<Rightarrow> NautilusIconFactory option" where
  "g_hash_table_insert key v s =
     (if name key = None then None
      else
        let s1 = s\<lparr>icon_cache := table_store key v (icon_cache s)\<rparr>
        in case g_hash_table_lookup (icon_cache s) key of
             None \<Rightarrow> Some s1
           | Some old \<Rightarrow> cache_icon_unref old s1)"

definition g_hash_table_remove ::
    "CacheKey \<Rightarrow> NautilusIconFactory \<Rightarrow> (bool \<times> NautilusIconFactory) option" where
  "g_hash_table_remove key s =
     (if name key = None then None
      else
        case g_hash_table_lookup (icon_cache s) key of
          None \<Rightarrow> Some (False, s)
        | Some old \<Rightarrow> do {
            s1 \<leftarrow> cache_icon_unref old (s\<lparr>icon_cache := table_delete key (icon_cache s)\<rparr>);
            Some (True, s1)
          })"

text \<open>
  \<^verbatim>\<open>g_hash_table_foreach_remove\<close> calls the predicate on every entry of the table;
  an entry for which it answers \<^verbatim>\<open>TRUE\<close> is removed at once and its value handed
  to \<^verbatim>\<open>cache_icon_unref\<close>, before the next entry is visited.
\<close>

fun foreach_remove ::
    "(CacheKey \<Rightarrow> nat \<Rightarrow> NautilusIconFactory \<Rightarrow> (bool \<times> NautilusIconFactory) option) \<Rightarrow>
     (CacheKey \<times> nat) list \<Rightarrow> NautilusIconFactory \<Rightarrow> NautilusIconFactory option" where
  "foreach_remove func [] s = Some s"
| "foreach_remove func ((k, v) # rest) s = do {
     (remove, s1) \<leftarrow> func k v s;
     s2 \<leftarrow> (if remove
           then cache_icon_unref v (s1\<lparr>icon_cache := table_delete k (icon_cache s1)\<rparr>)
           else Some s1);
     foreach_remove func rest s2
   }"

definition g_hash_table_foreach_remove ::
    "(CacheKey \<Rightarrow> nat \<Rightarrow> NautilusIconFactory \<Rightarrow> (bool \<times> NautilusIconFactory) option) \<Rightarrow>
     NautilusIconFactory \<Rightarrow> NautilusIconFactory option" where
  "g_hash_table_foreach_remove func s = foreach_remove func (icon_cache s) s"

subsection \<open>The sweep\<close>

definition nautilus_icon_factory_possibly_free_cached_icon ::
    "CacheKey \<Rightarrow> nat \<Rightarrow> NautilusIconFactory \<Rightarrow> (bool \<times> NautilusIconFactory) option" where
  "nautilus_icon_factory_possibly_free_cached_icon key v s =
     (case icons s v of
        None \<Rightarrow> None
      | Some icon \<Rightarrow>
          if c_next (recently_used_node icon) \<noteq> Null then Some (False, s)
          else if pixbuf_ref_count icon > 1 then Some (False, s)
          else
            let icon1 = icon\<lparr>age := age icon + 1\<rparr>;
                s1 = s\<lparr>icons := (icons s)(v \<mapsto> icon1)\<rparr>
            in if age icon1 > ICON_MAX_AGE then Some (True, s1)
               else Some (True, s1))"

definition nautilus_icon_factory_sweep :: "NautilusIconFactory \<Rightarrow> NautilusIconFactory option" where
  "nautilus_icon_factory_sweep factory = do {
     s1 \<leftarrow> g_hash_table_foreach_remove nautilus_icon_factory_possibly_free_cached_icon factory;
     Some (s1\<lparr>sweep_timer := 0\<rparr>)
   }"

text \<open>
  \<^verbatim>\<open>g_timeout_add\<close> returns the identifier of the new timer, which is not zero;
  the model stores 1.
\<close>

definition nautilus_icon_factory_schedule_sweep :: "NautilusIconFactory \<Rightarrow> NautilusIconFactory" where
  "nautilus_icon_factory_schedule_sweep factory =
     (if sweep_timer factory \<noteq> 0 then factory else factory\<lparr>sweep_timer := 1\<rparr>)"

subsection \<open>Clearing and removing\<close>

definition remove_all ::
    "CacheKey \<Rightarrow> nat \<Rightarrow> NautilusIconFactory \<Rightarrow> (bool \<times> NautilusIconFactory) option" where
  "remove_all key v s = Some (True, s)"

definition remove_non_pathnames ::
    "CacheKey \<Rightarrow> nat \<Rightarrow> NautilusIconFactory \<Rightarrow> (bool \<times> NautilusIconFactory) option" where
  "remove_non_pathnames key v s =
     (case name key of
        Some (c # cs) \<Rightarrow> if c = CHR ''/'' then Some (False, s) else Some (True, s)
      | _ \<Rightarrow> Some (True, s))"

definition nautilus_icon_factory_clear :: "bool \<Rightarrow> NautilusIconFactory \<Rightarrow> NautilusIconFactory option" where
  "nautilus_icon_factory_clear clear_pathnames s = do {
     s1 \<leftarrow> g_hash_table_foreach_remove
             (if clear_pathnames then remove_all else remove_non_pathnames) s;
     if clear_pathnames then
       (if \<not> (recently_used_count s1 = 0 \<or> recently_used_count s1 = 1) then None
        else if recently_used_count s1 = 1 then
          (if \<not> c_next (recently_used_dummy_head s1) = c_prev (recently_used_dummy_head s1)
           then None
           else if \<not> Node (fallback_icon s1) = c_next (recently_used_dummy_head s1)
           then None
           else Some s1)
        else Some s1)
     else Some s1
   }"

text \<open>
  \<^verbatim>\<open>nautilus_icon_factory_remove_from_cache\<close> fills in the name, the modifier and
  the size of its lookup key and never assigns \<^verbatim>\<open>force_nominal\<close>: the field
  holds whatever the stack held. The model takes that value as its first argument, for a
  stack that reads as \<^verbatim>\<open>TRUE\<close> or as \<^verbatim>\<open>FALSE\<close>.
\<close>

definition nautilus_icon_factory_remove_from_cache ::
    "bool \<Rightarrow> string option \<Rightarrow> string option \<Rightarrow> 32 word \<Rightarrow> NautilusIconFactory \<Rightarrow>
     (bool \<times> NautilusIconFactory) option" where
  "nautilus_icon_factory_remove_from_cache unassigned icon_name modifier' size' s =
     g_hash_table_remove
       \<lparr>name = icon_name, modifier = modifier', nominal_size = size',
        force_nominal = unassigned\<rparr> s"

subsection \<open>Making an icon\<close>

text \<open>
  What the cache consumes from outside: \<^verbatim>\<open>stat\<close>, the lookup in the icon theme
  (\<^verbatim>\<open>gtk_icon_theme_lookup_icon\<close> with the base size and the file name of the
  result), and whether \<^verbatim>\<open>load_icon_file\<close> obtains a pixbuf from a file. They are
  fields of an environment that stays the same during one call.
\<close>

record statbuf =
  st_isreg :: bool
  st_mtime :: int

record icon_info =
  base_size :: int
  filename :: "string option"

record environment =
  c_stat :: "string \<Rightarrow> statbuf option"
  gtk_icon_theme_lookup_icon :: "string \<Rightarrow> 32 word \<Rightarrow> icon_info option"
  load_icon_file :: "string \<Rightarrow> int \<Rightarrow> 32 word \<Rightarrow> bool \<Rightarrow> bool"

text \<open>\<^verbatim>\<open>icon[0] == '/'\<close>; the first byte of the empty string is the terminator.\<close>

definition is_absolute :: "string \<Rightarrow> bool" where
  "is_absolute icon = (case icon of [] \<Rightarrow> False | c # cs \<Rightarrow> c = CHR ''/'')"

text \<open>
  \<^verbatim>\<open>cache_icon_new\<close> allocates a zeroed icon with one reference and takes a
  reference to the pixbuf, whose count before the call is the argument.
\<close>

definition cache_icon_new :: "nat \<Rightarrow> NautilusIconFactory \<Rightarrow> nat \<times> NautilusIconFactory" where
  "cache_icon_new pixbuf_refs s =
     (next_free s,
      s\<lparr>icons := (icons s)(next_free s \<mapsto>
           \<lparr>ref_count = 1, pixbuf_ref_count = pixbuf_refs + 1, mtime = 0,
            recently_used_node = \<lparr>c_next = Null, c_prev = Null\<rparr>, age = 0\<rparr>),
        next_free := next_free s + 1\<rparr>)"

text \<open>
  \<^verbatim>\<open>create_normal_cache_icon\<close> returns \<^verbatim>\<open>NULL\<close> (\<open>None\<close>) or a new
  icon. A loaded pixbuf arrives with one reference, which the function drops after
  \<^verbatim>\<open>cache_icon_new\<close> has taken its own.
\<close>

definition create_normal_cache_icon ::
    "environment \<Rightarrow> string \<Rightarrow> string option \<Rightarrow> 32 word \<Rightarrow> bool \<Rightarrow> NautilusIconFactory \<Rightarrow>
     nat option \<times> NautilusIconFactory" where
  "create_normal_cache_icon e icon modifier' nominal_size' force_nominal' s =
     (let found =
        (if is_absolute icon then
           (case c_stat e icon of
              Some sb \<Rightarrow> if st_isreg sb then Some (Some icon, st_mtime sb, 0) else Some (None, 0, 0)
            | None \<Rightarrow> Some (None, 0, 0))
         else
           (case gtk_icon_theme_lookup_icon e
                   (case modifier' of Some m \<Rightarrow> icon @ ''-'' @ m | None \<Rightarrow> icon) nominal_size' of
              None \<Rightarrow> None
            | Some info \<Rightarrow> Some (filename info, 0, base_size info)))
      in case found of
           None \<Rightarrow> (None, s)
         | Some (None, mt, bs) \<Rightarrow> (None, s)
         | Some (Some file, mt, bs) \<Rightarrow>
             if \<not> load_icon_file e file bs nominal_size' force_nominal' then (None, s)
             else
               let (a, s1) = cache_icon_new 1 s;
                   upd = (\<lambda>i. i\<lparr>mtime := mt, pixbuf_ref_count := pixbuf_ref_count i - 1\<rparr>)
               in (Some a, s1\<lparr>icons := (icons s1)(a := map_option upd (icons s1 a))\<rparr>))"

subsection \<open>Looking an icon up\<close>

definition lookup_icon_from_cache ::
    "string option \<Rightarrow> string option \<Rightarrow> 32 word \<Rightarrow> bool \<Rightarrow> NautilusIconFactory \<Rightarrow> nat option" where
  "lookup_icon_from_cache icon modifier' nominal_size' force_nominal' s =
     g_hash_table_lookup (icon_cache s)
       \<lparr>name = icon, modifier = modifier', nominal_size = nominal_size',
        force_nominal = force_nominal'\<rparr>"

text \<open>
  The freshness test of \<^verbatim>\<open>get_icon_from_cache\<close> for an entry that was found:
  for an absolute file name the entry is dropped (\<open>None\<close> inside) when
  \<^verbatim>\<open>stat\<close> fails, the file is not regular or its modification time is not the
  one stored in the icon. The icon is read only when the first two tests pass.
\<close>

definition still_fresh ::
    "environment \<Rightarrow> string \<Rightarrow> nat \<Rightarrow> NautilusIconFactory \<Rightarrow> nat option option" where
  "still_fresh e icon a s =
     (if is_absolute icon then
        (case c_stat e icon of
           None \<Rightarrow> Some None
         | Some sb \<Rightarrow>
             if \<not> st_isreg sb then Some None
             else (case icons s a of
                     None \<Rightarrow> None
                   | Some cached \<Rightarrow> Some (if st_mtime sb \<noteq> mtime cached then None else Some a)))
      else Some (Some a))"

text \<open>
  The body of \<^verbatim>\<open>if (cached_icon == NULL)\<close>: load the image, try again without the
  modifier, fall back to the fallback icon with one more reference, and insert under the
  key made of the four arguments.
\<close>

definition load_and_insert ::
    "environment \<Rightarrow> string \<Rightarrow> string option \<Rightarrow> 32 word \<Rightarrow> bool \<Rightarrow> NautilusIconFactory \<Rightarrow>
     (nat \<times> NautilusIconFactory) option" where
  "load_and_insert e icon modifier' nominal_size' force_nominal' s = do {
     let (c1, s1) = create_normal_cache_icon e icon modifier' nominal_size' force_nominal' s;
     let (c2, s2) = (if c1 = None \<and> modifier' \<noteq> None
                     then create_normal_cache_icon e icon None nominal_size' force_nominal' s1
                     else (c1, s1));
     (c3, s3) \<leftarrow> (case c2 of
                    Some a \<Rightarrow> Some (a, s2)
                  | None \<Rightarrow> do {
                      s' \<leftarrow> cache_icon_ref (fallback_icon s2) s2;
                      Some (fallback_icon s2, s')
                    });
     s4 \<leftarrow> g_hash_table_insert
             \<lparr>name = Some icon, modifier = modifier', nominal_size = nominal_size',
              force_nominal = force_nominal'\<rparr> c3 s3;
     Some (c3, s4)
   }"

definition set_age :: "nat \<Rightarrow> int \<Rightarrow> NautilusIconFactory \<Rightarrow> NautilusIconFactory option" where
  "set_age a v s =
     (case icons s a of
        None \<Rightarrow> None
      | Some i \<Rightarrow> Some (s\<lparr>icons := (icons s)(a \<mapsto> i\<lparr>age := v\<rparr>)\<rparr>))"

text \<open>
  \<^verbatim>\<open>get_icon_from_cache\<close>. The result is the returned pointer (\<open>None\<close> for
  \<^verbatim>\<open>NULL\<close>) with the memory after the call.
\<close>

definition get_icon_from_cache ::
    "environment \<Rightarrow> string option \<Rightarrow> string option \<Rightarrow> 32 word \<Rightarrow> bool \<Rightarrow> NautilusIconFactory \<Rightarrow>
     (nat option \<times> NautilusIconFactory) option" where
  "get_icon_from_cache e icon modifier' nominal_size' force_nominal' s =
     (case icon of
        None \<Rightarrow> Some (None, s)
      | Some nm \<Rightarrow> do {
          found \<leftarrow> (case lookup_icon_from_cache icon modifier' nominal_size' force_nominal' s of
                      None \<Rightarrow> Some None
                    | Some a \<Rightarrow> still_fresh e nm a s);
          (cached_icon, s1) \<leftarrow> (case found of
                                  Some a \<Rightarrow> Some (a, s)
                                | None \<Rightarrow> load_and_insert e nm modifier' nominal_size'
                                           force_nominal' s);
          s2 \<leftarrow> cache_icon_ref cached_icon s1;
          s3 \<leftarrow> mark_recently_used (Node cached_icon) s2;
          s4 \<leftarrow> set_age cached_icon 0 s3;
          Some (Some cached_icon, nautilus_icon_factory_schedule_sweep s4)
        })"

text \<open>
  The initial factory of \<^verbatim>\<open>nautilus_icon_factory_instance_init\<close>: an empty table,
  an empty list, and the fallback icon, made by \<^verbatim>\<open>cache_icon_new\<close> from a fresh
  pixbuf whose creating reference is dropped afterwards.
\<close>

definition nautilus_icon_factory_instance_init :: NautilusIconFactory where
  "nautilus_icon_factory_instance_init =
     \<lparr>icon_cache = [],
      recently_used_dummy_head = \<lparr>c_next = Head, c_prev = Head\<rparr>,
      recently_used_count = 0,
      sweep_timer = 0,
      fallback_icon = 0,
      icons = Map.empty(0 \<mapsto>
        \<lparr>ref_count = 1, pixbuf_ref_count = 1, mtime = 0,
         recently_used_node = \<lparr>c_next = Null, c_prev = Null\<rparr>, age = 0\<rparr>),
      next_free = 1\<rparr>"

section \<open>Well-formed memories\<close>

text \<open>
  The pointers of the list, read as two functions on pointers. A pointer to no live
  object reads as \<open>Null\<close>.
\<close>

definition live :: "NautilusIconFactory \<Rightarrow> cptr \<Rightarrow> bool" where
  "live s p = (case p of Null \<Rightarrow> False | Head \<Rightarrow> True | Node a \<Rightarrow> icons s a \<noteq> None)"

definition nxt :: "NautilusIconFactory \<Rightarrow> cptr \<Rightarrow> cptr" where
  "nxt s p = (case get_next p s of Some q \<Rightarrow> q | None \<Rightarrow> Null)"

definition prv :: "NautilusIconFactory \<Rightarrow> cptr \<Rightarrow> cptr" where
  "prv s p = (case get_prev p s of Some q \<Rightarrow> q | None \<Rightarrow> Null)"

text \<open>
  \<open>chain n p cs\<close>: along the list \<open>cs\<close> of pointers every element is the
  \<open>prev\<close> of its successor and has it as its \<open>next\<close>.
\<close>

fun chain :: "(cptr \<Rightarrow> cptr) \<Rightarrow> (cptr \<Rightarrow> cptr) \<Rightarrow> cptr list \<Rightarrow> bool" where
  "chain n p (x # y # r) = (n x = y \<and> p y = x \<and> chain n p (y # r))"
| "chain n p [x] = True"
| "chain n p [] = True"

text \<open>
  \<open>ring E s xs\<close>: the recently-used list of the memory \<open>s\<close> holds the nodes of the
  icons at the addresses \<open>xs\<close>, most recent first: the addresses are distinct and live,
  following \<open>next\<close> from the dummy head runs through them and back to the head with
  \<open>prev\<close> pointing the other way, and every other live icon, those at the addresses
  \<open>E\<close> apart, has both pointers \<open>Null\<close>. \<open>E\<close> is empty between the calls of the
  program; inside a call it names the node that is being moved.
\<close>

definition ring :: "nat set \<Rightarrow> NautilusIconFactory \<Rightarrow> nat list \<Rightarrow> bool" where
  "ring E s xs \<longleftrightarrow>
     distinct xs \<and> (\<forall>a\<in>set xs. icons s a \<noteq> None) \<and>
     chain (nxt s) (prv s) (Head # map Node xs @ [Head]) \<and>
     (\<forall>a. icons s a \<noteq> None \<and> a \<notin> set xs \<and> a \<notin> E \<longrightarrow>
        nxt s (Node a) = Null \<and> prv s (Node a) = Null)"

text \<open>
  The writes of the pointer fields as total functions: \<open>set_next\<close> and \<open>set_prev\<close>
  return these memories when the pointer written through is live.
\<close>

definition link_n :: "cptr \<Rightarrow> cptr \<Rightarrow> NautilusIconFactory \<Rightarrow> NautilusIconFactory" where
  "link_n p v s = (case set_next p v s of Some s' \<Rightarrow> s' | None \<Rightarrow> s)"

definition link_p :: "cptr \<Rightarrow> cptr \<Rightarrow> NautilusIconFactory \<Rightarrow> NautilusIconFactory" where
  "link_p p v s = (case set_prev p v s of Some s' \<Rightarrow> s' | None \<Rightarrow> s)"

text \<open>An icon without its list node: what the pointer writes leave alone.\<close>

definition strip :: "CacheIcon \<Rightarrow> CacheIcon" where
  "strip i = i\<lparr>recently_used_node := \<lparr>c_next = Null, c_prev = Null\<rparr>\<rparr>"

definition payload :: "NautilusIconFactory \<Rightarrow> nat \<Rightarrow> CacheIcon option" where
  "payload s a = map_option strip (icons s a)"

text \<open>
  \<open>same_data s s'\<close>: the memory \<open>s'\<close> differs from \<open>s\<close> at most in the pointers of the
  list and in \<open>recently_used_count\<close>.
\<close>

definition same_data :: "NautilusIconFactory \<Rightarrow> NautilusIconFactory \<Rightarrow> bool" where
  "same_data s s' \<longleftrightarrow>
     payload s' = payload s \<and> icon_cache s' = icon_cache s \<and>
     sweep_timer s' = sweep_timer s \<and> fallback_icon s' = fallback_icon s \<and>
     next_free s' = next_free s"

text \<open>
  The list of addresses after \<^verbatim>\<open>mark_recently_used\<close> on the node of the icon at
  \<open>a\<close>, when the list held \<open>xs\<close> before.
\<close>

definition promote :: "nat \<Rightarrow> nat list \<Rightarrow> nat list" where
  "promote a xs =
     (if a \<in> set xs then a # remove1 a xs
      else if length xs < ICON_CACHE_COUNT then a # xs
      else a # butlast xs)"

text \<open>
  The references the cache itself holds to the icon at \<open>a\<close>: one for every entry of the
  table whose value it is, and one more for the fallback icon, which the factory holds.
\<close>

definition table_refs :: "NautilusIconFactory \<Rightarrow> nat \<Rightarrow> nat" where
  "table_refs s a =
     count_list (map snd (icon_cache s)) a + (if a = fallback_icon s then 1 else 0)"

text \<open>
  \<open>refs_ok\<close>: the keys of the table are distinct, the fallback icon and the values of the
  table are live, every live icon has at least one reference and at least as many as the
  cache holds, and live addresses lie below \<open>next_free\<close>.
\<close>

definition refs_ok :: "NautilusIconFactory \<Rightarrow> bool" where
  "refs_ok s \<longleftrightarrow>
     distinct (map fst (icon_cache s)) \<and>
     payload s (fallback_icon s) \<noteq> None \<and>
     (\<forall>a\<in>snd ` set (icon_cache s). payload s a \<noteq> None) \<and>
     (\<forall>a i. payload s a = Some i \<longrightarrow> table_refs s a \<le> ref_count i \<and> 1 \<le> ref_count i) \<and>
     (\<forall>a. payload s a \<noteq> None \<longrightarrow> a < next_free s)"

text \<open>
  \<open>cache_ok s xs\<close>: the memory is well formed and its recently-used list holds \<open>xs\<close>.
\<close>

definition cache_ok :: "NautilusIconFactory \<Rightarrow> nat list \<Rightarrow> bool" where
  "cache_ok s xs \<longleftrightarrow>
     ring {} s xs \<and> recently_used_count s = length xs \<and>
     length xs \<le> ICON_CACHE_COUNT \<and> refs_ok s"

text \<open>
  \<open>quiescent\<close>: nobody but the cache holds a reference to an icon, as between two calls
  of the functions that hand out pixbufs (they drop the reference to the icon before they
  return).
\<close>

definition quiescent :: "NautilusIconFactory \<Rightarrow> bool" where
  "quiescent s \<longleftrightarrow> (\<forall>a i. payload s a = Some i \<longrightarrow> ref_count i = table_refs s a)"

text \<open>
  What \<^verbatim>\<open>create_normal_cache_icon\<close> makes in a given environment: the modification
  time of the new icon, or \<open>None\<close> when the function returns \<^verbatim>\<open>NULL\<close>; and the
  same for the two attempts of \<^verbatim>\<open>get_icon_from_cache\<close>, the second without the
  modifier.
\<close>

definition synthesis ::
    "environment \<Rightarrow> string \<Rightarrow> string option \<Rightarrow> 32 word \<Rightarrow> bool \<Rightarrow> int option" where
  "synthesis e icon modifier' nominal_size' force_nominal' =
     (if is_absolute icon then
        (case c_stat e icon of
           None \<Rightarrow> None
         | Some sb \<Rightarrow>
             if st_isreg sb \<and> load_icon_file e icon 0 nominal_size' force_nominal'
             then Some (st_mtime sb) else None)
      else
        (case gtk_icon_theme_lookup_icon e
                (case modifier' of Some m \<Rightarrow> icon @ ''-'' @ m | None \<Rightarrow> icon) nominal_size' of
           None \<Rightarrow> None
         | Some info \<Rightarrow>
             (case filename info of
                None \<Rightarrow> None
              | Some file \<Rightarrow>
                  if load_icon_file e file (base_size info) nominal_size' force_nominal'
                  then Some 0 else None)))"

definition synthesis_with_retry ::
    "environment \<Rightarrow> string \<Rightarrow> string option \<Rightarrow> 32 word \<Rightarrow> bool \<Rightarrow> int option" where
  "synthesis_with_retry e icon modifier' nominal_size' force_nominal' =
     (case synthesis e icon modifier' nominal_size' force_nominal' of
        Some mt \<Rightarrow> Some mt
      | None \<Rightarrow>
          if modifier' \<noteq> None then synthesis e icon None nominal_size' force_nominal'
          else None)"

definition new_icon :: "int \<Rightarrow> CacheIcon" where
  "new_icon mt =
     \<lparr>ref_count = 1, pixbuf_ref_count = 1, mtime = mt,
      recently_used_node = \<lparr>c_next = Null, c_prev = Null\<rparr>, age = 0\<rparr>"

definition with_new_icon :: "int \<Rightarrow> NautilusIconFactory \<Rightarrow> NautilusIconFactory" where
  "with_new_icon mt s =
     s\<lparr>icons := (icons s)(next_free s \<mapsto> new_icon mt), next_free := next_free s + 1\<rparr>"

text \<open>
  \<open>stale e icon mt\<close>: the freshness test of \<^verbatim>\<open>get_icon_from_cache\<close> rejects an
  entry for \<open>icon\<close> whose stored modification time is \<open>mt\<close>. \<open>cache_hit\<close> is the
  entry the function goes on with when it does not load: the one the table has for the
  key, unless it is stale.
\<close>

definition stale :: "environment \<Rightarrow> string \<Rightarrow> int \<Rightarrow> bool" where
  "stale e icon mt \<longleftrightarrow>
     is_absolute icon \<and>
     (case c_stat e icon of None \<Rightarrow> True | Some sb \<Rightarrow> \<not> st_isreg sb \<or> st_mtime sb \<noteq> mt)"

definition cache_hit ::
    "environment \<Rightarrow> string \<Rightarrow> CacheKey \<Rightarrow> NautilusIconFactory \<Rightarrow> nat option" where
  "cache_hit e icon key s =
     (case g_hash_table_lookup (icon_cache s) key of
        None \<Rightarrow> None
      | Some a \<Rightarrow>
          (case icons s a of
             None \<Rightarrow> None
           | Some i \<Rightarrow> if stale e icon (mtime i) then None else Some a))"

text \<open>
  \<open>names_path key\<close>: the name of the key starts with \<^verbatim>\<open>/\<close>, the test of
  \<^verbatim>\<open>remove_non_pathnames\<close>.
\<close>

definition names_path :: "CacheKey \<Rightarrow> bool" where
  "names_path key = (case name key of Some (c # cs) \<Rightarrow> c = CHR ''/'' | _ \<Rightarrow> False)"


section \<open>Example memories\<close>

text \<open>
  A factory whose table holds one entry, for the icon at address 1: one reference (the
  table's), a pixbuf that nobody else holds, not in the recently-used list, age 0.
\<close>

definition plain_icon :: CacheIcon where
  "plain_icon =
     \<lparr>ref_count = 1, pixbuf_ref_count = 1, mtime = 0,
      recently_used_node = \<lparr>c_next = Null, c_prev = Null\<rparr>, age = 0\<rparr>"

definition folder_key :: "bool \<Rightarrow> CacheKey" where
  "folder_key force =
     \<lparr>name = Some ''folder'', modifier = None, nominal_size = 48, force_nominal = force\<rparr>"

definition one_entry_factory :: "bool \<Rightarrow> NautilusIconFactory" where
  "one_entry_factory force =
     nautilus_icon_factory_instance_init
       \<lparr>icon_cache := [(folder_key force, 1)],
        icons := (icons nautilus_icon_factory_instance_init)(1 \<mapsto> plain_icon),
        next_free := 2\<rparr>"

text \<open>
  The same entry after a lookup has put its node into the recently-used list and the
  caller has dropped its reference: the list holds this one node.
\<close>

definition listed_icon :: CacheIcon where
  "listed_icon = plain_icon\<lparr>recently_used_node := \<lparr>c_next = Head, c_prev = Head\<rparr>\<rparr>"

definition listed_factory :: NautilusIconFactory where
  "listed_factory =
     nautilus_icon_factory_instance_init
       \<lparr>icon_cache := [(folder_key False, 1)],
        recently_used_dummy_head := \<lparr>c_next = Node 1, c_prev = Node 1\<rparr>,
        recently_used_count := 1,
        icons := (icons nautilus_icon_factory_instance_init)(1 \<mapsto> listed_icon),
        next_free := 2\<rparr>"

text \<open>
  An environment in which nothing can be found: no file exists, the theme has no icon,
  and nothing loads. In \<open>unloadable_file_environment\<close> every path is a regular file
  with modification time 7, and still nothing loads.
\<close>

definition empty_environment :: environment where
  "empty_environment =
     \<lparr>c_stat = (\<lambda>path. None),
      gtk_icon_theme_lookup_icon = (\<lambda>icon_name size'. None),
      load_icon_file = (\<lambda>file bs size' force. False)\<rparr>"

definition unloadable_file_environment :: environment where
  "unloadable_file_environment =
     empty_environment\<lparr>c_stat := (\<lambda>path. Some \<lparr>st_isreg = True, st_mtime = 7\<rparr>)\<rparr>"

text \<open>
  In \<open>image_file_environment\<close> every path is a regular file with modification time 7
  that loads, and every name is in the theme.
\<close>

definition image_file_environment :: environment where
  "image_file_environment =
     \<lparr>c_stat = (\<lambda>path. Some \<lparr>st_isreg = True, st_mtime = 7\<rparr>),
      gtk_icon_theme_lookup_icon =
        (\<lambda>icon_name size'. Some \<lparr>base_size = 48, filename = Some icon_name\<rparr>),
      load_icon_file = (\<lambda>file bs size' force. True)\<rparr>"

text \<open>
  A factory whose table holds an entry for the file \<open>/a\<close>, loaded when the modification
  time of the file was 5.
\<close>

definition path_key :: CacheKey where
  "path_key =
     \<lparr>name = Some ''/a'', modifier = None, nominal_size = 48, force_nominal = False\<rparr>"

definition path_factory :: NautilusIconFactory where
  "path_factory =
     nautilus_icon_factory_instance_init
       \<lparr>icon_cache := [(path_key, 1)],
        icons := (icons nautilus_icon_factory_instance_init)(1 \<mapsto> plain_icon\<lparr>mtime := 5\<rparr>),
        next_free := 2\<rparr>"

text \<open>
  A factory with two entries, one for the icon name \<open>folder\<close> and one for the file
  \<open>/a\<close>; neither icon is in the recently-used list.
\<close>

definition two_entry_factory :: NautilusIconFactory where
  "two_entry_factory =
     nautilus_icon_factory_instance_init
       \<lparr>icon_cache := [(folder_key False, 1), (path_key, 2)],
        icons := (icons nautilus_icon_factory_instance_init)
                   (1 \<mapsto> plain_icon, 2 \<mapsto> plain_icon\<lparr>mtime := 5\<rparr>),
        next_free := 3\<rparr>"



section \<open>Properties of the model\<close>

subsection \<open>Keys\<close>

lemma eel_strcmp_zero_iff: "eel_strcmp x y = 0 \<longleftrightarrow> x = y"
  by (simp add: eel_strcmp_def)

lemma cache_key_equal_eq: "cache_key_equal a b \<longleftrightarrow> a = b"
  by (cases a, cases b) (auto simp: cache_key_equal_def eel_strcmp_zero_iff)

subsection \<open>Chains of pointers\<close>

lemma chain_append: "chain n p (us @ b # bs) \<longleftrightarrow> chain n p (us @ [b]) \<and> chain n p (b # bs)"
proof (induction us)
  case Nil
  show ?case by simp
next
  case (Cons u us)
  then show ?case by (cases us) auto
qed

lemma chain_upd_n: "x \<notin> set (butlast cs) \<Longrightarrow> chain (n(x := v)) p cs = chain n p cs"
proof (induction cs)
  case Nil
  show ?case by simp
next
  case (Cons c cs)
  then show ?case by (cases cs) auto
qed

lemma chain_upd_p: "x \<notin> set (tl cs) \<Longrightarrow> chain n (p(x := v)) cs = chain n p cs"
proof (induction cs)
  case Nil
  show ?case by simp
next
  case (Cons c cs)
  then show ?case by (cases cs) (auto split: if_splits)
qed

lemma chain_snoc: "chain n p (us @ [a, b]) \<longleftrightarrow> chain n p (us @ [a]) \<and> n a = b \<and> p b = a"
  using chain_append [of n p us a "[b]"] by auto

lemma hd_notin_tl: "distinct us \<Longrightarrow> us \<noteq> [] \<Longrightarrow> hd us \<notin> set (tl us)"
  by (cases us) auto

lemma last_notin_butlast: "distinct us \<Longrightarrow> us \<noteq> [] \<Longrightarrow> last us \<notin> set (butlast us)"
  by (induction us) (auto dest: in_set_butlastD)

lemma chain_unlink:
  assumes d: "distinct (us @ x # vs)" and ne: "us \<noteq> []"
    and c: "chain n p (us @ x # vs @ [hd us])"
  shows "n x = hd (vs @ [hd us]) \<and> p x = last us \<and>
         chain (n(last us := hd (vs @ [hd us]))) (p(hd (vs @ [hd us]) := last us))
           (us @ vs @ [hd us])"
proof -
  define h where "h = hd us"
  define l where "l = last us"
  define y where "y = hd (vs @ [h])"
  define ws where "ws = tl (vs @ [h])"
  have vs: "vs @ [h] = y # ws" by (simp add: y_def ws_def)
  have us: "us = butlast us @ [l]" using ne by (simp add: l_def)
  have hus: "h \<in> set us" using ne by (simp add: h_def)
  have lus: "l \<in> set us" using ne by (simp add: l_def)
  have c1: "chain n p (us @ [x])" and c2: "chain n p (x # y # ws)"
    using c chain_append [of n p us x "vs @ [hd us]"] by (simp_all add: h_def [symmetric] vs)
  have c3: "chain n p us" and nl: "n l = x" and px: "p x = l"
    using c1 chain_snoc [of n p "butlast us" l x] us chain_append [of n p "butlast us" l "[]"]
    by (metis append.assoc append_Cons append_Nil chain_append)+
  have c4: "chain n p (y # ws)" using c2 by simp
  have y_tl_us: "y \<notin> set (tl us)"
  proof (cases vs)
    case Nil
    then have "y = h" by (simp add: y_def)
    then show ?thesis using d ne hd_notin_tl [of us] by (simp add: h_def)
  next
    case (Cons v vs')
    then have "y = v" by (simp add: y_def)
    then show ?thesis using d Cons ne by (auto dest: list.set_sel(2))
  qed
  have y_ws: "y \<notin> set ws"
  proof (cases vs)
    case Nil
    then show ?thesis by (simp add: ws_def)
  next
    case (Cons v vs')
    then have "y = v" "ws = vs' @ [h]" by (simp_all add: y_def ws_def)
    then show ?thesis using d Cons hus by auto
  qed
  have l_bl: "l \<notin> set (butlast us)"
    using d ne last_notin_butlast [of us] by (simp add: l_def)
  have l_vs: "l \<notin> set vs" using d lus by auto
  have bl: "butlast (y # ws) = vs" using vs by (metis butlast_snoc)
  have g1: "chain (n(l := y)) (p(y := l)) us"
    using c3 l_bl y_tl_us by (simp add: chain_upd_n chain_upd_p)
  have g2: "chain (n(l := y)) (p(y := l)) (y # ws)"
    using c4 l_vs y_ws bl by (simp add: chain_upd_n chain_upd_p del: butlast.simps)
  have "chain (n(l := y)) (p(y := l)) (butlast us @ l # y # ws)"
    using g1 g2 us chain_append [of "n(l := y)" "p(y := l)" "butlast us" l "y # ws"]
    by simp
  then have "chain (n(l := y)) (p(y := l)) (us @ vs @ [h])"
    using us vs by (metis append.assoc append_Cons append_Nil)
  moreover have "n x = y" using c2 by simp
  ultimately show ?thesis using px by (simp add: h_def l_def y_def)
qed


lemma chain_insert:
  assumes d: "distinct (h # vs)" and x: "x \<notin> set (h # vs)"
    and c: "chain n p (h # vs @ [h])"
  shows "chain (n(x := n h, h := x)) (p(x := h, n h := x)) (h # x # vs @ [h])"
proof -
  define y where "y = hd (vs @ [h])"
  define ws where "ws = tl (vs @ [h])"
  have vs: "vs @ [h] = y # ws" by (simp add: y_def ws_def)
  have nh: "n h = y" and c1: "chain n p (y # ws)" using c vs by simp_all
  have bl: "butlast (y # ws) = vs" using vs by (metis butlast_snoc)
  have y_ws: "y \<notin> set ws"
  proof (cases vs)
    case Nil
    then show ?thesis by (simp add: ws_def)
  next
    case (Cons v vs')
    then have "y = v" "ws = vs' @ [h]" by (simp_all add: y_def ws_def)
    then show ?thesis using d Cons by auto
  qed
  have xy: "x \<noteq> y" using x vs by (metis list.set_intros(1) rotate1.simps(2) set_rotate1)
  have x_ws: "x \<notin> set ws" using x vs
    by (metis Un_iff list.set_intros(2) set_append list.set(2) insert_iff empty_set empty_iff)
  have h_vs: "h \<notin> set vs" using d by simp
  have x_vs: "x \<notin> set vs" using x by simp
  have "chain (n(x := y, h := x)) (p(x := h, y := x)) (y # ws)"
    using c1 y_ws x_ws h_vs x_vs bl
    by (simp add: chain_upd_n chain_upd_p del: butlast.simps)
  then have "chain (n(x := y, h := x)) (p(x := h, y := x)) (h # x # y # ws)"
    using xy x by auto
  then show ?thesis using vs nh by simp
qed

lemma chain_bump:
  assumes d: "distinct (h # vs)" and ne: "vs \<noteq> []"
    and c: "chain n p (h # vs @ [h])"
  shows "p h = last vs \<and> p (last vs) = last (h # butlast vs) \<and>
         chain (n(last (h # butlast vs) := h, last vs := q)) (p(h := last (h # butlast vs), last vs := r))
           (h # butlast vs @ [h])"
proof -
  define l where "l = last vs"
  define us where "us = h # butlast vs"
  define m where "m = last us"
  have vs: "vs = butlast vs @ [l]" using ne by (simp add: l_def)
  have us: "us = butlast us @ [m]" by (simp add: m_def us_def)
  have e1: "h # vs @ [h] = us @ [l, h]" using vs by (simp add: us_def)
  have c1: "chain n p (us @ [l])" and nl: "n l = h" and ph: "p h = l"
    using c e1 chain_snoc [of n p us l h] by simp_all
  have e2: "us @ [l] = butlast us @ [m, l]" using us by simp
  have c2: "chain n p (butlast us @ [m])" and nm: "n m = l" and pl: "p l = m"
    using c1 e2 chain_snoc [of n p "butlast us" m l] by simp_all
  have c3: "chain n p us" using c2 us by simp
  have l_us: "l \<notin> set us" using d vs ne
    by (auto simp: us_def l_def dest: in_set_butlastD last_notin_butlast)
  have lh: "l \<noteq> h" using l_us by (auto simp: us_def)
  have dus: "distinct us" and nus: "us \<noteq> []"
    using d by (auto simp: us_def distinct_butlast dest: in_set_butlastD)
  have m_bl: "m \<notin> set (butlast us)"
    using last_notin_butlast [OF dus nus] by (simp add: m_def)
  have m_us: "m \<in> set us" by (simp add: m_def us_def)
  have ml: "m \<noteq> l" using l_us m_us by auto
  have h_tl: "h \<notin> set (tl us)" using d by (auto simp: us_def dest: in_set_butlastD)
  have l_tl: "l \<notin> set (tl us)" using l_us by (auto simp: us_def)
  have l_bl: "l \<notin> set (butlast us)" using l_us by (auto dest: in_set_butlastD)
  have "chain (n(m := h, l := q)) (p(h := m, l := r)) us"
    using c3 m_bl l_bl h_tl l_tl by (simp add: chain_upd_n chain_upd_p)
  then have "chain (n(m := h, l := q)) (p(h := m, l := r)) (butlast us @ [m])"
    using us by simp
  then have "chain (n(m := h, l := q)) (p(h := m, l := r)) (butlast us @ [m, h])"
    using chain_snoc [of "n(m := h, l := q)" "p(h := m, l := r)" "butlast us" m h] ml lh by simp
  then have "chain (n(m := h, l := q)) (p(h := m, l := r)) (us @ [h])"
    using us by (metis append.assoc append_Cons append_Nil)
  then show ?thesis using ph pl by (simp add: l_def m_def us_def)
qed

subsection \<open>Pointer reads and writes on live objects\<close>

lemma live_simps [simp]:
  "live s Head" "\<not> live s Null" "live s (Node a) \<longleftrightarrow> icons s a \<noteq> None"
  by (simp_all add: live_def)

lemma get_next_live: "live s p \<Longrightarrow> get_next p s = Some (nxt s p)"
  by (cases p) (auto simp: nxt_def)

lemma get_prev_live: "live s p \<Longrightarrow> get_prev p s = Some (prv s p)"
  by (cases p) (auto simp: prv_def)

lemma set_next_live: "live s p \<Longrightarrow> set_next p v s = Some (link_n p v s)"
  by (cases p) (auto simp: link_n_def)

lemma set_prev_live: "live s p \<Longrightarrow> set_prev p v s = Some (link_p p v s)"
  by (cases p) (auto simp: link_p_def)

lemma nxt_link_n: "live s p \<Longrightarrow> nxt (link_n p v s) = (nxt s)(p := v)"
proof (rule ext)
  fix q
  assume "live s p"
  then show "nxt (link_n p v s) q = ((nxt s)(p := v)) q"
    by (cases p; cases q) (auto simp: nxt_def link_n_def split: option.splits)
qed

lemma prv_link_p: "live s p \<Longrightarrow> prv (link_p p v s) = (prv s)(p := v)"
proof (rule ext)
  fix q
  assume "live s p"
  then show "prv (link_p p v s) q = ((prv s)(p := v)) q"
    by (cases p; cases q) (auto simp: prv_def link_p_def split: option.splits)
qed

lemma prv_link_n [simp]: "prv (link_n p v s) = prv s"
proof (rule ext)
  fix q
  show "prv (link_n p v s) q = prv s q"
    by (cases p; cases q) (auto simp: prv_def link_n_def split: option.splits)
qed

lemma nxt_link_p [simp]: "nxt (link_p p v s) = nxt s"
proof (rule ext)
  fix q
  show "nxt (link_p p v s) q = nxt s q"
    by (cases p; cases q) (auto simp: nxt_def link_p_def split: option.splits)
qed

lemma live_link_n [simp]: "live (link_n p v s) = live s"
proof (rule ext)
  fix q
  show "live (link_n p v s) q = live s q"
    by (cases p; cases q) (auto simp: link_n_def split: option.splits)
qed

lemma live_link_p [simp]: "live (link_p p v s) = live s"
proof (rule ext)
  fix q
  show "live (link_p p v s) q = live s q"
    by (cases p; cases q) (auto simp: link_p_def split: option.splits)
qed

lemma payload_link_n [simp]: "payload (link_n p v s) = payload s"
proof (rule ext)
  fix a
  show "payload (link_n p v s) a = payload s a"
    by (cases p) (auto simp: payload_def link_n_def strip_def split: option.splits)
qed

lemma payload_link_p [simp]: "payload (link_p p v s) = payload s"
proof (rule ext)
  fix a
  show "payload (link_p p v s) a = payload s a"
    by (cases p) (auto simp: payload_def link_p_def strip_def split: option.splits)
qed

lemma fields_link_n [simp]:
  "icon_cache (link_n p v s) = icon_cache s"
  "recently_used_count (link_n p v s) = recently_used_count s"
  "sweep_timer (link_n p v s) = sweep_timer s"
  "fallback_icon (link_n p v s) = fallback_icon s"
  "next_free (link_n p v s) = next_free s"
  by (cases p; auto simp: link_n_def split: option.splits)+

lemma fields_link_p [simp]:
  "icon_cache (link_p p v s) = icon_cache s"
  "recently_used_count (link_p p v s) = recently_used_count s"
  "sweep_timer (link_p p v s) = sweep_timer s"
  "fallback_icon (link_p p v s) = fallback_icon s"
  "next_free (link_p p v s) = next_free s"
  by (cases p; auto simp: link_p_def split: option.splits)+

lemma live_payload: "live s (Node a) \<longleftrightarrow> payload s a \<noteq> None"
  by (simp add: payload_def)

subsection \<open>The list operations on a well-formed list\<close>

declare get_next.simps [simp del] get_prev.simps [simp del]
  set_next.simps [simp del] set_prev.simps [simp del]

lemma ring_cells:
  assumes "ring E s xs"
  shows "distinct (Head # map Node xs)" and "\<forall>c\<in>set (Head # map Node xs). live s c"
    and "chain (nxt s) (prv s) (Head # map Node xs @ [Head])"
  using assms by (auto simp: ring_def distinct_map inj_on_def)

lemma ring_outside:
  "ring E s xs \<Longrightarrow> icons s b \<noteq> None \<Longrightarrow> b \<notin> set xs \<Longrightarrow> b \<notin> E \<Longrightarrow>
   nxt s (Node b) = Null \<and> prv s (Node b) = Null"
  by (simp add: ring_def)

lemma ring_unlink:
  assumes r: "ring E s xs" and a: "a \<in> set xs"
  shows "unlink_in_place (Node a) s =
           Some (link_n (prv s (Node a)) (nxt s (Node a))
                  (link_p (nxt s (Node a)) (prv s (Node a)) s)) \<and>
         ring (insert a E)
           (link_n (prv s (Node a)) (nxt s (Node a))
              (link_p (nxt s (Node a)) (prv s (Node a)) s)) (remove1 a xs)"
proof -
  obtain ys zs where xs: "xs = ys @ a # zs" and ays: "a \<notin> set ys"
    using a by (meson split_list_first)
  have dxs: "distinct xs" using r by (simp add: ring_def)
  then have azs: "a \<notin> set zs" using xs by simp
  define us where "us = Head # map Node ys"
  define vs where "vs = map Node zs"
  define y where "y = hd (vs @ [Head])"
  define l where "l = last us"
  have cells: "Head # map Node xs = us @ Node a # vs" by (simp add: xs us_def vs_def)
  have d: "distinct (us @ Node a # vs)" using ring_cells(1) [OF r] cells by simp
  have c: "chain (nxt s) (prv s) (us @ Node a # vs @ [hd us])"
    using ring_cells(3) [OF r] cells by (simp add: us_def)
  have ne: "us \<noteq> []" by (simp add: us_def)
  have hdus: "hd us = Head" by (simp add: us_def)
  from chain_unlink [OF d ne c]
  have nx: "nxt s (Node a) = y" and px: "prv s (Node a) = l"
    and c': "chain ((nxt s)(l := y)) ((prv s)(y := l)) (us @ vs @ [Head])"
    by (simp_all add: y_def l_def hdus)
  have y_in: "y \<in> set (vs @ [Head])" unfolding y_def by (cases vs) auto
  have l_in: "l \<in> set us" unfolding l_def using ne by simp
  have lv: "\<forall>c\<in>set (us @ Node a # vs). live s c" using ring_cells(2) [OF r] cells by simp
  have ly: "live s y" using y_in lv by auto
  have ll: "live s l" using l_in lv by auto
  have la: "live s (Node a)" using lv by simp
  have ya: "y \<noteq> Node a" using y_in d azs by (auto simp: vs_def us_def)
  have la': "l \<noteq> Node a" using l_in d by auto
  let ?s1 = "link_p y l s"
  let ?s2 = "link_n l y ?s1"
  have run: "unlink_in_place (Node a) s = Some ?s2"
    using la ly ll ya
    by (simp add: unlink_in_place_def get_next_live get_prev_live set_next_live set_prev_live
        nx px prv_link_p)
  have n2: "nxt ?s2 = (nxt s)(l := y)" using ll by (simp add: nxt_link_n)
  have p2: "prv ?s2 = (prv s)(y := l)" using ly by (simp add: prv_link_p)
  have rem: "remove1 a xs = ys @ zs" using xs ays by (simp add: remove1_append)
  have live2: "\<And>b. icons ?s2 b \<noteq> None \<longleftrightarrow> icons s b \<noteq> None"
    by (metis live_link_n live_link_p live_simps(3))
  have "ring (insert a E) ?s2 (ys @ zs)"
    unfolding ring_def
  proof (intro conjI allI impI ballI)
    show "distinct (ys @ zs)" using dxs xs by simp
  next
    fix b assume "b \<in> set (ys @ zs)"
    then have "icons s b \<noteq> None" using r xs by (auto simp: ring_def)
    then show "icons ?s2 b \<noteq> None" using live2 by simp
  next
    show "chain (nxt ?s2) (prv ?s2) (Head # map Node (ys @ zs) @ [Head])"
      using c' n2 p2 by (simp add: us_def vs_def)
  next
    fix b assume b: "icons ?s2 b \<noteq> None \<and> b \<notin> set (ys @ zs) \<and> b \<notin> insert a E"
    then have lb: "icons s b \<noteq> None" and bx: "b \<notin> set xs" and bE: "b \<notin> E"
      using live2 xs by auto
    have nb: "nxt s (Node b) = Null" and pb: "prv s (Node b) = Null"
      using ring_outside [OF r lb bx bE] by simp_all
    have "Node b \<noteq> l" using l_in bx xs by (auto simp: us_def)
    moreover have "Node b \<noteq> y" using y_in bx xs by (auto simp: vs_def)
    ultimately show "nxt ?s2 (Node b) = Null" and "prv ?s2 (Node b) = Null"
      using nb pb n2 p2 by simp_all
  qed
  then show ?thesis using run rem nx px by simp
qed


lemma ring_live_cong:
  assumes "nxt s' = nxt s" "prv s' = prv s" "\<And>b. icons s' b \<noteq> None \<longleftrightarrow> icons s b \<noteq> None"
  shows "ring E s' xs = ring E s xs"
  using assms by (simp add: ring_def)

lemma ring_mono: "ring E s xs \<Longrightarrow> E \<subseteq> E' \<Longrightarrow> ring E' s xs"
  by (auto simp: ring_def)

lemma ring_insert:
  assumes r: "ring E s xs" and a: "a \<notin> set xs" and la: "icons s a \<noteq> None"
  shows "insert_at_head (Node a) s =
           Some (link_n Head (Node a) (link_p (nxt s Head) (Node a)
                  (link_n (Node a) (nxt s Head) (link_p (Node a) Head s)))) \<and>
         ring (E - {a})
           (link_n Head (Node a) (link_p (nxt s Head) (Node a)
              (link_n (Node a) (nxt s Head) (link_p (Node a) Head s)))) (a # xs)"
proof -
  define vs where "vs = map Node xs"
  define y where "y = nxt s Head"
  have d: "distinct (Head # vs)" using ring_cells(1) [OF r] by (simp add: vs_def)
  have x: "Node a \<notin> set (Head # vs)" using a by (auto simp: vs_def)
  have c: "chain (nxt s) (prv s) (Head # vs @ [Head])"
    using ring_cells(3) [OF r] by (simp add: vs_def)
  have c': "chain ((nxt s)(Node a := y, Head := Node a)) ((prv s)(Node a := Head, y := Node a))
              (Head # Node a # vs @ [Head])"
    using chain_insert [OF d x c] by (simp add: y_def)
  have y_in: "y \<in> set (vs @ [Head])"
    using c unfolding y_def by (cases vs) auto
  have lv: "\<forall>c\<in>set (Head # vs). live s c" using ring_cells(2) [OF r] by (simp add: vs_def)
  have ly: "live s y" using y_in lv by auto
  have lna: "live s (Node a)" using la by simp
  let ?s1 = "link_p (Node a) Head s"
  let ?s2 = "link_n (Node a) y ?s1"
  let ?s3 = "link_p y (Node a) ?s2"
  let ?s4 = "link_n Head (Node a) ?s3"
  have run: "insert_at_head (Node a) s = Some ?s4"
    using lna ly
    by (simp add: insert_at_head_def get_next_live get_prev_live set_next_live set_prev_live
        nxt_link_n y_def)
  have n4: "nxt ?s4 = (nxt s)(Node a := y, Head := Node a)"
    using lna by (simp add: nxt_link_n)
  have p4: "prv ?s4 = (prv s)(Node a := Head, y := Node a)"
    using lna ly by (simp add: prv_link_p)
  have live4: "\<And>b. icons ?s4 b \<noteq> None \<longleftrightarrow> icons s b \<noteq> None"
    by (metis live_link_n live_link_p live_simps(3))
  have "ring (E - {a}) ?s4 (a # xs)"
    unfolding ring_def
  proof (intro conjI allI impI ballI)
    show "distinct (a # xs)" using r a by (simp add: ring_def)
  next
    fix b assume "b \<in> set (a # xs)"
    then have "icons s b \<noteq> None" using r la by (auto simp: ring_def)
    then show "icons ?s4 b \<noteq> None" using live4 by simp
  next
    show "chain (nxt ?s4) (prv ?s4) (Head # map Node (a # xs) @ [Head])"
      using c' n4 p4 by (simp add: vs_def)
  next
    fix b assume b: "icons ?s4 b \<noteq> None \<and> b \<notin> set (a # xs) \<and> b \<notin> E - {a}"
    then have lb: "icons s b \<noteq> None" and bx: "b \<notin> set xs" and bE: "b \<notin> E" and ba: "b \<noteq> a"
      using live4 by auto
    have nb: "nxt s (Node b) = Null" and pb: "prv s (Node b) = Null"
      using ring_outside [OF r lb bx bE] by simp_all
    have "Node b \<noteq> y" using y_in bx by (auto simp: vs_def)
    then show "nxt ?s4 (Node b) = Null" and "prv ?s4 (Node b) = Null"
      using nb pb n4 p4 ba by simp_all
  qed
  then show ?thesis using run by (simp add: y_def)
qed

lemma ring_bump:
  assumes r: "ring E s xs" and ne: "xs \<noteq> []"
  shows "bump_last_node s =
           Some (link_n (Node (last xs)) Null (link_p (Node (last xs)) Null
                  (link_n (prv s (Node (last xs))) Head
                    (link_p Head (prv s (Node (last xs))) s)))) \<and>
         ring E
           (link_n (Node (last xs)) Null (link_p (Node (last xs)) Null
              (link_n (prv s (Node (last xs))) Head
                (link_p Head (prv s (Node (last xs))) s)))) (butlast xs)"
proof -
  define vs where "vs = map Node xs"
  define l where "l = Node (last xs)"
  define m where "m = last (Head # butlast vs)"
  have d: "distinct (Head # vs)" using ring_cells(1) [OF r] by (simp add: vs_def)
  have vne: "vs \<noteq> []" using ne by (simp add: vs_def)
  have c: "chain (nxt s) (prv s) (Head # vs @ [Head])"
    using ring_cells(3) [OF r] by (simp add: vs_def)
  have lvs: "last vs = l" using ne by (simp add: vs_def l_def last_map)
  from chain_bump [OF d vne c, of Null Null]
  have ph: "prv s Head = l" and pl: "prv s l = m"
    and c': "chain ((nxt s)(m := Head, l := Null)) ((prv s)(Head := m, l := Null))
               (Head # butlast vs @ [Head])"
    by (simp_all add: lvs m_def)
  have lv: "\<forall>c\<in>set (Head # vs). live s c" using ring_cells(2) [OF r] by (simp add: vs_def)
  have l_in: "l \<in> set vs" using vne lvs by (metis last_in_set)
  have m_in: "m \<in> set (Head # butlast vs)" unfolding m_def by (metis last_in_set list.distinct(1))
  have ll: "live s l" using l_in lv by auto
  have lm: "live s m" using m_in lv by (auto dest: in_set_butlastD)
  have lH: "l \<noteq> Head" using l_def by simp
  have l_bl: "l \<notin> set (butlast vs)"
    using d vne last_notin_butlast [of vs] lvs by simp
  have ml: "m \<noteq> l" using m_in l_bl lH by auto
  let ?s1 = "link_p Head m s"
  let ?s2 = "link_n m Head ?s1"
  let ?s3 = "link_p l Null ?s2"
  let ?s4 = "link_n l Null ?s3"
  have run: "bump_last_node s = Some ?s4"
    using ll lm lH
    by (simp add: bump_last_node_def get_next_live get_prev_live set_next_live set_prev_live
        prv_link_p ph pl)
  have n4: "nxt ?s4 = (nxt s)(m := Head, l := Null)"
    using ll lm by (simp add: nxt_link_n)
  have p4: "prv ?s4 = (prv s)(Head := m, l := Null)"
    using ll by (simp add: prv_link_p)
  have live4: "\<And>b. icons ?s4 b \<noteq> None \<longleftrightarrow> icons s b \<noteq> None"
    by (metis live_link_n live_link_p live_simps(3))
  have bl: "butlast vs = map Node (butlast xs)" by (simp add: vs_def map_butlast)
  have "ring E ?s4 (butlast xs)"
    unfolding ring_def
  proof (intro conjI allI impI ballI)
    show "distinct (butlast xs)" using r by (simp add: ring_def distinct_butlast)
  next
    fix b assume "b \<in> set (butlast xs)"
    then have "icons s b \<noteq> None" using r by (auto simp: ring_def dest: in_set_butlastD)
    then show "icons ?s4 b \<noteq> None" using live4 by simp
  next
    show "chain (nxt ?s4) (prv ?s4) (Head # map Node (butlast xs) @ [Head])"
      using c' n4 p4 bl by simp
  next
    fix b assume b: "icons ?s4 b \<noteq> None \<and> b \<notin> set (butlast xs) \<and> b \<notin> E"
    then have lb: "icons s b \<noteq> None" and bx: "b \<notin> set (butlast xs)" and bE: "b \<notin> E"
      using live4 by auto
    show "nxt ?s4 (Node b) = Null"
    proof (cases "b = last xs")
      case True
      then show ?thesis using n4 by (simp add: l_def)
    next
      case False
      then have "b \<notin> set xs" using bx ne
        by (metis append_butlast_last_id in_set_conv_decomp_last last_snoc rotate1.simps(2) set_ConsD set_rotate1)
      then have "nxt s (Node b) = Null" using ring_outside [OF r lb _ bE] by simp
      moreover have "Node b \<noteq> m" using m_in bx bl by auto
      ultimately show ?thesis using n4 False by (simp add: l_def)
    qed
    show "prv ?s4 (Node b) = Null"
    proof (cases "b = last xs")
      case True
      then show ?thesis using p4 by (simp add: l_def)
    next
      case False
      then have "b \<notin> set xs" using bx ne
        by (metis append_butlast_last_id in_set_conv_decomp_last last_snoc rotate1.simps(2) set_ConsD set_rotate1)
      then have "prv s (Node b) = Null" using ring_outside [OF r lb _ bE] by simp
      then show ?thesis using p4 False by (simp add: l_def)
    qed
  qed
  then show ?thesis using run pl by (simp add: l_def)
qed

lemma ring_prev_hd: "ring E s (a # xs) \<Longrightarrow> prv s (Node a) = Head"
  by (simp add: ring_def)

lemma ring_inner:
  assumes r: "ring E s xs" and a: "a \<in> set xs"
  shows "nxt s (Node a) \<noteq> Null" and "a \<noteq> hd xs \<Longrightarrow> prv s (Node a) \<noteq> Head"
proof -
  obtain ys zs where xs: "xs = ys @ a # zs" and ays: "a \<notin> set ys"
    using a by (meson split_list_first)
  define us where "us = Head # map Node ys"
  define vs where "vs = map Node zs"
  have cells: "Head # map Node xs = us @ Node a # vs" by (simp add: xs us_def vs_def)
  have d: "distinct (us @ Node a # vs)" using ring_cells(1) [OF r] cells by simp
  have c: "chain (nxt s) (prv s) (us @ Node a # vs @ [hd us])"
    using ring_cells(3) [OF r] cells by (simp add: us_def)
  have ne: "us \<noteq> []" by (simp add: us_def)
  from chain_unlink [OF d ne c]
  have nx: "nxt s (Node a) = hd (vs @ [Head])" and px: "prv s (Node a) = last us"
    by (simp_all add: us_def)
  show "nxt s (Node a) \<noteq> Null" using nx by (cases zs) (auto simp: vs_def)
  assume "a \<noteq> hd xs"
  then have "ys \<noteq> []" using xs by (cases ys) auto
  then show "prv s (Node a) \<noteq> Head" using px by (simp add: us_def last_map)
qed

lemma same_data_refl [simp]: "same_data s s"
  by (simp add: same_data_def)

lemma same_data_trans: "same_data s s1 \<Longrightarrow> same_data s1 s2 \<Longrightarrow> same_data s s2"
  by (simp add: same_data_def)

lemma same_data_link [simp]:
  "same_data s (link_n p v s')  = same_data s s'"
  "same_data s (link_p p v s')  = same_data s s'"
  by (simp_all add: same_data_def)

lemma projections_cong:
  assumes "recently_used_dummy_head s' = recently_used_dummy_head s" "icons s' = icons s"
  shows "nxt s' = nxt s" "prv s' = prv s" "payload s' = payload s" "live s' = live s"
proof -
  have "\<And>q. get_next q s' = get_next q s" "\<And>q. get_prev q s' = get_prev q s"
    subgoal for q using assms by (cases q) (simp_all add: get_next.simps)
    subgoal for q using assms by (cases q) (simp_all add: get_prev.simps)
    done
  then show "nxt s' = nxt s" "prv s' = prv s" by (simp_all add: nxt_def prv_def fun_eq_iff)
  show "payload s' = payload s" using assms by (simp add: payload_def fun_eq_iff)
  show "live s' = live s" using assms by (auto simp: live_def fun_eq_iff split: cptr.splits)
qed

lemma projections_count [simp]:
  "nxt (s\<lparr>recently_used_count := c\<rparr>) = nxt s"
  "prv (s\<lparr>recently_used_count := c\<rparr>) = prv s"
  "payload (s\<lparr>recently_used_count := c\<rparr>) = payload s"
  "live (s\<lparr>recently_used_count := c\<rparr>) = live s"
  by (rule projections_cong; simp)+

lemma same_data_count [simp]:
  "same_data s (s'\<lparr>recently_used_count := c\<rparr>) = same_data s s'"
  by (simp add: same_data_def)


lemma ring_count_upd [simp]: "ring E (s\<lparr>recently_used_count := c\<rparr>) xs = ring E s xs"
  by (rule ring_live_cong) simp_all

lemma mark_recently_used_ring:
  assumes r: "ring {} s xs" and n: "recently_used_count s = length xs"
    and la: "icons s a \<noteq> None"
  shows "\<exists>s'. mark_recently_used (Node a) s = Some s' \<and> ring {} s' (promote a xs) \<and>
           recently_used_count s' = length (promote a xs) \<and> same_data s s'"
proof (cases "a \<in> set xs")
  case True
  show ?thesis
  proof (cases "a = hd xs")
    case hd: True
    then obtain xs' where xs: "xs = a # xs'" using True by (cases xs) auto
    then have "prv s (Node a) = Head" using r ring_prev_hd by simp
    then have "mark_recently_used (Node a) s = Some s"
      using la by (simp add: mark_recently_used_def get_prev_live)
    moreover have "promote a xs = xs" using xs by (simp add: promote_def)
    ultimately show ?thesis using r n by simp
  next
    case False
    have p: "prv s (Node a) \<noteq> Head" and nn: "nxt s (Node a) \<noteq> Null"
      using ring_inner [OF r True] False by simp_all
    let ?s1 = "link_n (prv s (Node a)) (nxt s (Node a))
                 (link_p (nxt s (Node a)) (prv s (Node a)) s)"
    have u: "unlink_in_place (Node a) s = Some ?s1" and r1: "ring {a} ?s1 (remove1 a xs)"
      using ring_unlink [OF r True] by simp_all
    have a1: "a \<notin> set (remove1 a xs)" using r by (simp add: ring_def)
    have l1: "icons ?s1 a \<noteq> None" using la by (metis live_link_n live_link_p live_simps(3))
    from ring_insert [OF r1 a1 l1] obtain s2 where
      i: "insert_at_head (Node a) ?s1 = Some s2" and r2: "ring {} s2 (a # remove1 a xs)"
      and s2: "s2 = link_n Head (Node a) (link_p (nxt ?s1 Head) (Node a)
                  (link_n (Node a) (nxt ?s1 Head) (link_p (Node a) Head ?s1)))"
      by simp
    have "mark_recently_used (Node a) s = Some s2"
      using la p nn u i by (simp add: mark_recently_used_def get_prev_live get_next_live)
    moreover have "promote a xs = a # remove1 a xs" using True by (simp add: promote_def)
    moreover have "length (a # remove1 a xs) = length xs"
      using True by (simp add: length_remove1) (cases xs; simp)
    moreover have "same_data s s2" "recently_used_count s2 = recently_used_count s"
      unfolding s2 by simp_all
    ultimately show ?thesis using r2 n by simp
  qed
next
  case False
  have p: "prv s (Node a) = Null" and nn: "nxt s (Node a) = Null"
    using ring_outside [OF r la False] by simp_all
  show ?thesis
  proof (cases "length xs < ICON_CACHE_COUNT")
    case True
    let ?s1 = "s\<lparr>recently_used_count := recently_used_count s + 1\<rparr>"
    have r1: "ring {} ?s1 xs" using r by simp
    have l1: "icons ?s1 a \<noteq> None" using la by simp
    from ring_insert [OF r1 False l1] obtain s2 where
      i: "insert_at_head (Node a) ?s1 = Some s2" and r2: "ring {} s2 (a # xs)"
      and s2: "s2 = link_n Head (Node a) (link_p (nxt ?s1 Head) (Node a)
                  (link_n (Node a) (nxt ?s1 Head) (link_p (Node a) Head ?s1)))"
      by simp
    have "mark_recently_used (Node a) s = Some s2"
      using la p nn i True n by (simp add: mark_recently_used_def get_prev_live get_next_live)
    moreover have "promote a xs = a # xs" using False True by (simp add: promote_def)
    moreover have "same_data s s2" "recently_used_count s2 = recently_used_count s + 1"
      unfolding s2 by simp_all
    ultimately show ?thesis using r2 n by simp
  next
    case full: False
    then have ne: "xs \<noteq> []" by (auto simp: ICON_CACHE_COUNT_def)
    let ?l = "Node (last xs)"
    let ?s1 = "link_n ?l Null (link_p ?l Null (link_n (prv s ?l) Head (link_p Head (prv s ?l) s)))"
    have b: "bump_last_node s = Some ?s1" and r1: "ring {} ?s1 (butlast xs)"
      using ring_bump [OF r ne] by simp_all
    have a1: "a \<notin> set (butlast xs)" using False by (auto dest: in_set_butlastD)
    have l1: "icons ?s1 a \<noteq> None" using la by (metis live_link_n live_link_p live_simps(3))
    from ring_insert [OF r1 a1 l1] obtain s2 where
      i: "insert_at_head (Node a) ?s1 = Some s2" and r2: "ring {} s2 (a # butlast xs)"
      and s2: "s2 = link_n Head (Node a) (link_p (nxt ?s1 Head) (Node a)
                  (link_n (Node a) (nxt ?s1 Head) (link_p (Node a) Head ?s1)))"
      by simp
    have "mark_recently_used (Node a) s = Some s2"
      using la p nn b i full n by (simp add: mark_recently_used_def get_prev_live get_next_live)
    moreover have "promote a xs = a # butlast xs" using False full by (simp add: promote_def)
    moreover have "same_data s s2" "recently_used_count s2 = recently_used_count s"
      unfolding s2 by simp_all
    moreover have "length (a # butlast xs) = length xs" using ne by simp
    ultimately show ?thesis using r2 n by simp
  qed
qed

subsection \<open>Updates of single icons\<close>

lemma projections_icons_upd:
  "nxt (s\<lparr>icons := (icons s)(a := v)\<rparr>) =
     (nxt s)(Node a := (case v of None \<Rightarrow> Null | Some i \<Rightarrow> c_next (recently_used_node i)))"
  "prv (s\<lparr>icons := (icons s)(a := v)\<rparr>) =
     (prv s)(Node a := (case v of None \<Rightarrow> Null | Some i \<Rightarrow> c_prev (recently_used_node i)))"
  "payload (s\<lparr>icons := (icons s)(a := v)\<rparr>) = (payload s)(a := map_option strip v)"
proof -
  show "nxt (s\<lparr>icons := (icons s)(a := v)\<rparr>) =
     (nxt s)(Node a := (case v of None \<Rightarrow> Null | Some i \<Rightarrow> c_next (recently_used_node i)))"
  proof (rule ext)
    fix q
    show "nxt (s\<lparr>icons := (icons s)(a := v)\<rparr>) q =
      ((nxt s)(Node a := (case v of None \<Rightarrow> Null | Some i \<Rightarrow> c_next (recently_used_node i)))) q"
      by (cases q) (auto simp: nxt_def get_next.simps split: option.splits)
  qed
  show "prv (s\<lparr>icons := (icons s)(a := v)\<rparr>) =
     (prv s)(Node a := (case v of None \<Rightarrow> Null | Some i \<Rightarrow> c_prev (recently_used_node i)))"
  proof (rule ext)
    fix q
    show "prv (s\<lparr>icons := (icons s)(a := v)\<rparr>) q =
      ((prv s)(Node a := (case v of None \<Rightarrow> Null | Some i \<Rightarrow> c_prev (recently_used_node i)))) q"
      by (cases q) (auto simp: prv_def get_prev.simps split: option.splits)
  qed
  show "payload (s\<lparr>icons := (icons s)(a := v)\<rparr>) = (payload s)(a := map_option strip v)"
    by (rule ext) (simp add: payload_def)
qed

lemma nxt_prv_icon:
  "icons s a = Some i \<Longrightarrow> nxt s (Node a) = c_next (recently_used_node i)"
  "icons s a = Some i \<Longrightarrow> prv s (Node a) = c_prev (recently_used_node i)"
  by (simp_all add: nxt_def prv_def get_next.simps get_prev.simps)

lemma ring_upd_outside:
  assumes r: "ring E s xs" and a: "a \<notin> set xs"
    and n: "nxt s' = (nxt s)(Node a := v)" and p: "prv s' = (prv s)(Node a := w)"
    and l: "\<And>b. b \<noteq> a \<Longrightarrow> (icons s' b \<noteq> None) = (icons s b \<noteq> None)"
    and e: "icons s' a \<noteq> None \<Longrightarrow> a \<in> E' \<or> (v = Null \<and> w = Null)"
    and sub: "E - {a} \<subseteq> E'"
  shows "ring E' s' xs"
  unfolding ring_def
proof (intro conjI allI impI ballI)
  show "distinct xs" using r by (simp add: ring_def)
next
  fix b assume "b \<in> set xs"
  then have "icons s b \<noteq> None" "b \<noteq> a" using r a by (auto simp: ring_def)
  then show "icons s' b \<noteq> None" using l by simp
next
  have "Node a \<notin> set (Head # map Node xs @ [Head])" using a by auto
  then have nb: "Node a \<notin> set (butlast (Head # map Node xs @ [Head]))"
    and nt: "Node a \<notin> set (tl (Head # map Node xs @ [Head]))"
    by (auto dest: in_set_butlastD)
  show "chain (nxt s') (prv s') (Head # map Node xs @ [Head])"
    unfolding n p using ring_cells(3) [OF r] chain_upd_n [OF nb] chain_upd_p [OF nt]
    by metis
next
  fix b assume b: "icons s' b \<noteq> None \<and> b \<notin> set xs \<and> b \<notin> E'"
  show "nxt s' (Node b) = Null" "prv s' (Node b) = Null"
  proof -
    have "nxt s' (Node b) = Null \<and> prv s' (Node b) = Null"
    proof (cases "b = a")
      case True
      then show ?thesis using b e n p by auto
    next
      case False
      then have "icons s b \<noteq> None" "b \<notin> E" using b l sub by auto
      then show ?thesis using ring_outside [OF r _ _ \<open>b \<notin> E\<close>] b False n p by simp
    qed
    then show "nxt s' (Node b) = Null" "prv s' (Node b) = Null" by simp_all
  qed
qed

lemma ring_set_icon:
  assumes r: "ring E s xs" and i: "icons s a = Some i"
    and same: "recently_used_node i' = recently_used_node i"
  shows "ring E (s\<lparr>icons := (icons s)(a \<mapsto> i')\<rparr>) xs"
proof -
  have "ring E (s\<lparr>icons := (icons s)(a \<mapsto> i')\<rparr>) xs = ring E s xs"
    by (rule ring_live_cong) (use i same in \<open>auto simp: projections_icons_upd nxt_prv_icon fun_eq_iff\<close>)
  then show ?thesis using r by simp
qed

lemma ring_free:
  assumes r: "ring E s xs" and a: "a \<notin> set xs"
  shows "ring (E - {a}) (s\<lparr>icons := (icons s)(a := None)\<rparr>) xs"
  by (rule ring_upd_outside [OF r a, where v = Null and w = Null])
     (simp_all add: projections_icons_upd)

lemma ring_new:
  assumes r: "ring E s xs" and a: "icons s a = None"
    and i: "recently_used_node i = \<lparr>c_next = Null, c_prev = Null\<rparr>"
  shows "ring E (s\<lparr>icons := (icons s)(a \<mapsto> i)\<rparr>) xs"
proof -
  have "a \<notin> set xs" using r a by (auto simp: ring_def)
  then show ?thesis
    by (rule ring_upd_outside [OF r, where v = Null and w = Null])
       (use i in \<open>auto simp: projections_icons_upd\<close>)
qed

subsection \<open>Dropping a reference\<close>

lemma icons_link_None [simp]:
  "(icons (link_n p v s) b = None) = (icons s b = None)"
  "(icons (link_p p v s) b = None) = (icons s b = None)"
  by (metis live_link_n live_simps(3)) (metis live_link_p live_simps(3))

lemma projections_icons_gen:
  assumes "recently_used_dummy_head s' = recently_used_dummy_head s"
    and "icons s' = (icons s)(a := v)"
  shows "nxt s' =
     (nxt s)(Node a := (case v of None \<Rightarrow> Null | Some i \<Rightarrow> c_next (recently_used_node i)))"
  and "prv s' =
     (prv s)(Node a := (case v of None \<Rightarrow> Null | Some i \<Rightarrow> c_prev (recently_used_node i)))"
  and "payload s' = (payload s)(a := map_option strip v)"
proof -
  have "nxt s' = nxt (s\<lparr>icons := (icons s)(a := v)\<rparr>)"
    "prv s' = prv (s\<lparr>icons := (icons s)(a := v)\<rparr>)"
    "payload s' = payload (s\<lparr>icons := (icons s)(a := v)\<rparr>)"
    by (rule projections_cong; use assms in simp)+
  then show "nxt s' =
     (nxt s)(Node a := (case v of None \<Rightarrow> Null | Some i \<Rightarrow> c_next (recently_used_node i)))"
  and "prv s' =
     (prv s)(Node a := (case v of None \<Rightarrow> Null | Some i \<Rightarrow> c_prev (recently_used_node i)))"
  and "payload s' = (payload s)(a := map_option strip v)"
    by (simp_all add: projections_icons_upd)
qed

lemma cache_icon_unref_ring:
  assumes r: "ring {} s xs" and n: "recently_used_count s = length xs"
    and i: "icons s a = Some i" and rc: "1 \<le> ref_count i"
  shows "\<exists>s'. cache_icon_unref a s = Some s' \<and>
           payload s' = (payload s)(a := (if 1 < ref_count i
              then Some (strip (i\<lparr>ref_count := ref_count i - 1\<rparr>)) else None)) \<and>
           ring {} s' (if 1 < ref_count i then xs else remove1 a xs) \<and>
           recently_used_count s' = length (if 1 < ref_count i then xs else remove1 a xs) \<and>
           icon_cache s' = icon_cache s \<and> fallback_icon s' = fallback_icon s \<and>
           next_free s' = next_free s \<and> sweep_timer s' = sweep_timer s"
proof (cases "1 < ref_count i")
  case True
  let ?s' = "s\<lparr>icons := (icons s)(a \<mapsto> i\<lparr>ref_count := ref_count i - 1\<rparr>)\<rparr>"
  have "cache_icon_unref a s = Some ?s'" using i rc True by (simp add: cache_icon_unref_def)
  moreover have "ring {} ?s' xs" using ring_set_icon [OF r i] by simp
  ultimately show ?thesis using True n by (simp add: projections_icons_upd)
next
  case False
  then have one: "ref_count i = 1" using rc by simp
  let ?s0 = "s\<lparr>icons := (icons s)(a \<mapsto> i\<lparr>ref_count := 0\<rparr>)\<rparr>"
  have r0: "ring {} ?s0 xs" using ring_set_icon [OF r i] by simp
  have l0: "icons ?s0 a \<noteq> None" by simp
  have p0: "payload ?s0 = (payload s)(a \<mapsto> strip (i\<lparr>ref_count := 0\<rparr>))"
    by (simp add: projections_icons_upd)
  show ?thesis
  proof (cases "a \<in> set xs")
    case inl: True
    have nn: "nxt ?s0 (Node a) \<noteq> Null" using ring_inner(1) [OF r0 inl] .
    let ?sa = "link_n (prv ?s0 (Node a)) (nxt ?s0 (Node a))
                 (link_p (nxt ?s0 (Node a)) (prv ?s0 (Node a)) ?s0)"
    have u: "unlink_in_place (Node a) ?s0 = Some ?sa" and ra: "ring {a} ?sa (remove1 a xs)"
      using ring_unlink [OF r0 inl] by simp_all
    define sc where "sc = link_p (Node a) Null (link_n (Node a) Null ?sa)"
    let ?sd = "sc\<lparr>recently_used_count := guint_dec (recently_used_count sc)\<rparr>"
    let ?s' = "?sd\<lparr>icons := (icons ?sd)(a := None)\<rparr>"
    have la: "live ?sa (Node a)" by simp
    have run: "cache_icon_unref a s = Some ?s'"
      using i one nn u la
      by (simp add: cache_icon_unref_def get_next_live set_next_live set_prev_live Let_def sc_def
          del: live_simps)
    have a1: "a \<notin> set (remove1 a xs)" using r by (simp add: ring_def)
    have nc: "nxt sc = (nxt ?sa)(Node a := Null)" and pc: "prv sc = (prv ?sa)(Node a := Null)"
      and plc: "payload sc = (payload s)(a \<mapsto> strip (i\<lparr>ref_count := 0\<rparr>))"
      and cc: "recently_used_count sc = recently_used_count s"
      and oc: "icon_cache sc = icon_cache s" "fallback_icon sc = fallback_icon s"
          "next_free sc = next_free s" "sweep_timer sc = sweep_timer s"
      and lc: "\<And>b. (icons sc b = None) = (icons s b = None \<and> b \<noteq> a)"
      unfolding sc_def by (simp_all add: nxt_link_n prv_link_p projections_icons_upd)
    have g: "recently_used_dummy_head ?s' = recently_used_dummy_head sc"
      "icons ?s' = (icons sc)(a := None)" by simp_all
    have n': "nxt ?s' = (nxt ?sa)(Node a := Null)" and p': "prv ?s' = (prv ?sa)(Node a := Null)"
      and pl: "payload ?s' = (payload s)(a := None)"
      using projections_icons_gen [OF g] nc pc plc by simp_all
    have r': "ring {} ?s' (remove1 a xs)"
      by (rule ring_upd_outside [OF ra a1 n' p']) (simp_all add: lc)
    have len: "guint_dec (length xs) = length (remove1 a xs)"
    proof -
      have "0 < length xs" using inl by (cases xs) auto
      then show ?thesis using inl by (simp add: guint_dec_def length_remove1)
    qed
    have fr: "recently_used_count ?s' = guint_dec (recently_used_count s)"
      "icon_cache ?s' = icon_cache s" "fallback_icon ?s' = fallback_icon s"
      "next_free ?s' = next_free s" "sweep_timer ?s' = sweep_timer s"
      using cc oc by simp_all
    show ?thesis using run r' n len pl False fr by (simp del: fun_upd_apply)
  next
    case out: False
    have nn: "nxt ?s0 (Node a) = Null" using ring_outside [OF r0 l0 out] by simp
    let ?s' = "?s0\<lparr>icons := (icons ?s0)(a := None)\<rparr>"
    have run: "cache_icon_unref a s = Some ?s'"
      using i one nn by (simp add: cache_icon_unref_def get_next_live Let_def)
    have r': "ring {} ?s' xs" using ring_free [OF r0 out] by simp
    have rem: "remove1 a xs = xs" using out by (simp add: remove1_idem)
    have pl: "payload ?s' = (payload s)(a := None)"
      by (simp add: projections_icons_upd)
    show ?thesis using run r' n rem pl False by simp
  qed
qed

subsection \<open>Reference counts\<close>

lemma create_normal_cache_icon_eq:
  "create_normal_cache_icon e icon m sz f s =
     (case synthesis e icon m sz f of
        None \<Rightarrow> (None, s)
      | Some mt \<Rightarrow> (Some (next_free s), with_new_icon mt s))"
  by (auto simp: create_normal_cache_icon_def synthesis_def cache_icon_new_def with_new_icon_def
      new_icon_def Let_def split: option.splits)

lemma strip_simps [simp]:
  "ref_count (strip i) = ref_count i" "pixbuf_ref_count (strip i) = pixbuf_ref_count i"
  "mtime (strip i) = mtime i" "age (strip i) = age i"
  "strip (i\<lparr>ref_count := r\<rparr>) = (strip i)\<lparr>ref_count := r\<rparr>"
  "strip (i\<lparr>age := g\<rparr>) = (strip i)\<lparr>age := g\<rparr>"
  "strip (i\<lparr>recently_used_node := nd\<rparr>) = strip i"
  "strip (strip i) = strip i"
  by (simp_all add: strip_def)

lemma payload_Some: "icons s a = Some i \<Longrightarrow> payload s a = Some (strip i)"
  by (simp add: payload_def)

lemma payload_None: "(payload s a = None) = (icons s a = None)"
  by (simp add: payload_def)

lemma payload_SomeD: "payload s a = Some j \<Longrightarrow> \<exists>i. icons s a = Some i \<and> j = strip i"
  by (auto simp: payload_def)

lemma refs_ok_cong:
  "payload s' = payload s \<Longrightarrow> icon_cache s' = icon_cache s \<Longrightarrow>
   fallback_icon s' = fallback_icon s \<Longrightarrow> next_free s' = next_free s \<Longrightarrow>
   refs_ok s' = refs_ok s"
  by (simp add: refs_ok_def table_refs_def)

lemma refs_ok_same_data: "same_data s s' \<Longrightarrow> refs_ok s' = refs_ok s"
  by (rule refs_ok_cong) (simp_all add: same_data_def)


lemma cache_icon_unref_ok:
  assumes ok: "cache_ok s xs" and i: "payload s a = Some j"
    and ex: "table_refs s a < ref_count j"
  shows "\<exists>s'. cache_icon_unref a s = Some s' \<and>
           payload s' = (payload s)(a := (if 1 < ref_count j
              then Some (j\<lparr>ref_count := ref_count j - 1\<rparr>) else None)) \<and>
           cache_ok s' (if 1 < ref_count j then xs else remove1 a xs) \<and>
           icon_cache s' = icon_cache s \<and> fallback_icon s' = fallback_icon s \<and>
           next_free s' = next_free s \<and> sweep_timer s' = sweep_timer s"
proof -
  obtain i where ii: "icons s a = Some i" and j: "j = strip i" using payload_SomeD [OF i] by auto
  have r: "ring {} s xs" and n: "recently_used_count s = length xs"
    and len: "length xs \<le> ICON_CACHE_COUNT" and ro: "refs_ok s"
    using ok by (simp_all add: cache_ok_def)
  have rc: "1 \<le> ref_count i" using ex j by simp
  let ?xs' = "if 1 < ref_count j then xs else remove1 a xs"
  let ?v = "if 1 < ref_count j then Some (j\<lparr>ref_count := ref_count j - 1\<rparr>) else None"
  from cache_icon_unref_ring [OF r n ii rc] obtain s' where
    run: "cache_icon_unref a s = Some s'"
    and pl: "payload s' = (payload s)(a := ?v)"
    and r': "ring {} s' ?xs'" and n': "recently_used_count s' = length ?xs'"
    and fr: "icon_cache s' = icon_cache s" "fallback_icon s' = fallback_icon s"
       "next_free s' = next_free s" "sweep_timer s' = sweep_timer s"
    unfolding j by auto
  have len': "length ?xs' \<le> ICON_CACHE_COUNT"
    using len by (auto simp: length_remove1)
  have tr: "\<And>b. table_refs s' b = table_refs s b" using fr by (simp add: table_refs_def)
  have ro': "refs_ok s'"
    unfolding refs_ok_def
  proof (intro conjI ballI allI impI)
    show "distinct (map fst (icon_cache s'))" using ro fr by (simp add: refs_ok_def)
  next
    have "a = fallback_icon s \<Longrightarrow> 1 < ref_count j" using ex by (simp add: table_refs_def)
    then show "payload s' (fallback_icon s') \<noteq> None"
      using ro fr pl by (auto simp: refs_ok_def)
  next
    fix b assume b: "b \<in> snd ` set (icon_cache s')"
    then have "0 < count_list (map snd (icon_cache s)) b" using fr
      by (metis count_list_0_iff gr0I set_map)
    then have "b = a \<Longrightarrow> 1 < ref_count j" using ex by (simp add: table_refs_def)
    moreover have "payload s b \<noteq> None"
      using ro b fr unfolding refs_ok_def by (metis (no_types, lifting))
    ultimately show "payload s' b \<noteq> None" using pl by (auto)
  next
    fix b k assume bk: "payload s' b = Some k"
    show "table_refs s' b \<le> ref_count k" "1 \<le> ref_count k"
    proof -
      have "table_refs s' b \<le> ref_count k \<and> 1 \<le> ref_count k"
      proof (cases "b = a")
        case True
        then show ?thesis using bk pl ex tr by (auto split: if_splits)
      next
        case False
        then have "payload s b = Some k" using bk pl by simp
        then show ?thesis using ro tr by (simp add: refs_ok_def)
      qed
      then show "table_refs s' b \<le> ref_count k" "1 \<le> ref_count k" by simp_all
    qed
  next
    fix b assume "payload s' b \<noteq> None"
    then have "payload s b \<noteq> None" using pl i by (auto split: if_splits)
    then show "b < next_free s'" using ro fr by (simp add: refs_ok_def)
  qed
  show ?thesis using run pl r' n' len' ro' fr by (simp add: cache_ok_def)
qed

subsection \<open>The table\<close>

lemma g_hash_table_lookup_map_of: "g_hash_table_lookup t k = map_of t k"
  by (induction t) (auto simp: cache_key_equal_eq)

lemma map_of_table_store: "map_of (table_store k v t) = (map_of t)(k \<mapsto> v)"
  by (induction t) (auto simp: cache_key_equal_eq fun_eq_iff)

lemma keys_table_store:
  "map fst (table_store k v t) = (if k \<in> fst ` set t then map fst t else map fst t @ [k])"
  by (induction t) (force simp: cache_key_equal_eq)+

lemma distinct_table_store:
  "distinct (map fst t) \<Longrightarrow> distinct (map fst (table_store k v t))"
  by (simp add: keys_table_store)

lemma count_table_store:
  "count_list (map snd (table_store k v t)) b + (if map_of t k = Some b then 1 else 0) =
   count_list (map snd t) b + (if b = v then 1 else 0)"
  by (induction t) (auto simp: cache_key_equal_eq)

lemma map_of_table_delete:
  "distinct (map fst t) \<Longrightarrow> map_of (table_delete k t) = (map_of t)(k := None)"
proof (induction t)
  case Nil
  show ?case by simp
next
  case (Cons x t)
  obtain k' v' where x: "x = (k', v')" by (cases x)
  show ?case
  proof (cases "k' = k")
    case True
    then have "map_of t k = None" using Cons.prems x by (simp add: map_of_eq_None_iff)
    then show ?thesis using True x by (auto simp: cache_key_equal_eq fun_eq_iff)
  next
    case False
    then show ?thesis using Cons x by (auto simp: cache_key_equal_eq fun_eq_iff)
  qed
qed

lemma keys_table_delete: "map fst (table_delete k t) = remove1 k (map fst t)"
  by (induction t) (auto simp: cache_key_equal_eq)

lemma distinct_table_delete:
  "distinct (map fst t) \<Longrightarrow> distinct (map fst (table_delete k t))"
  by (simp add: keys_table_delete)

lemma count_table_delete:
  "count_list (map snd (table_delete k t)) b + (if map_of t k = Some b then 1 else 0) =
   count_list (map snd t) b"
  by (induction t) (auto simp: cache_key_equal_eq)

lemma set_table_delete: "set (table_delete k t) \<subseteq> set t"
  by (induction t) (auto split: if_splits)

lemma map_of_value_in: "map_of t k = Some v \<Longrightarrow> v \<in> snd ` set t"
  by (metis map_of_SomeD snd_conv image_eqI)

lemma in_table_store: "x \<in> set (table_store k v t) \<Longrightarrow> snd x = v \<or> x \<in> set t"
  by (induction t) (auto split: if_splits)

lemma set_table_store: "snd ` set (table_store k v t) \<subseteq> insert v (snd ` set t)"
  using in_table_store by fastforce

lemma table_delete_middle:
  "distinct (map fst (kept @ (k, v) # rest)) \<Longrightarrow>
   table_delete k (kept @ (k, v) # rest) = kept @ rest"
  by (induction kept) (auto simp: cache_key_equal_eq)

lemma projections_icon_cache [simp]:
  "nxt (s\<lparr>icon_cache := t\<rparr>) = nxt s"
  "prv (s\<lparr>icon_cache := t\<rparr>) = prv s"
  "payload (s\<lparr>icon_cache := t\<rparr>) = payload s"
  "live (s\<lparr>icon_cache := t\<rparr>) = live s"
  by (rule projections_cong; simp)+

lemma projections_sweep_timer [simp]:
  "nxt (s\<lparr>sweep_timer := t\<rparr>) = nxt s"
  "prv (s\<lparr>sweep_timer := t\<rparr>) = prv s"
  "payload (s\<lparr>sweep_timer := t\<rparr>) = payload s"
  "live (s\<lparr>sweep_timer := t\<rparr>) = live s"
  by (rule projections_cong; simp)+

lemma ring_icon_cache [simp]: "ring E (s\<lparr>icon_cache := t\<rparr>) xs = ring E s xs"
  by (rule ring_live_cong) simp_all

lemma ring_sweep_timer [simp]: "ring E (s\<lparr>sweep_timer := t\<rparr>) xs = ring E s xs"
  by (rule ring_live_cong) simp_all

lemma retable_ok:
  assumes ok: "cache_ok s xs" and d: "distinct (map fst t)"
    and lv: "\<forall>a\<in>snd ` set t. payload s a \<noteq> None"
    and cnt: "\<And>b j. payload s b = Some j \<Longrightarrow>
       count_list (map snd t) b + (if b = fallback_icon s then 1 else 0) \<le> ref_count j"
  shows "cache_ok (s\<lparr>icon_cache := t\<rparr>) xs"
proof -
  have ro: "refs_ok s" using ok by (simp add: cache_ok_def)
  have "refs_ok (s\<lparr>icon_cache := t\<rparr>)"
    unfolding refs_ok_def
  proof (intro conjI ballI allI impI)
    show "distinct (map fst (icon_cache (s\<lparr>icon_cache := t\<rparr>)))" using d by simp
    show "payload (s\<lparr>icon_cache := t\<rparr>) (fallback_icon (s\<lparr>icon_cache := t\<rparr>)) \<noteq> None"
      using ro by (simp add: refs_ok_def)
  next
    fix a assume "a \<in> snd ` set (icon_cache (s\<lparr>icon_cache := t\<rparr>))"
    then show "payload (s\<lparr>icon_cache := t\<rparr>) a \<noteq> None" using lv by auto
  next
    fix a i assume a: "payload (s\<lparr>icon_cache := t\<rparr>) a = Some i"
    then show "table_refs (s\<lparr>icon_cache := t\<rparr>) a \<le> ref_count i"
      using cnt [of a i] by (simp add: table_refs_def)
    show "1 \<le> ref_count i" using a ro by (simp add: refs_ok_def)
  next
    fix a assume "payload (s\<lparr>icon_cache := t\<rparr>) a \<noteq> None"
    then show "a < next_free (s\<lparr>icon_cache := t\<rparr>)" using ro by (simp add: refs_ok_def)
  qed
  then show ?thesis using ok by (simp add: cache_ok_def)
qed

lemma refs_okD:
  assumes "refs_ok s"
  shows "payload s a = Some j \<Longrightarrow> table_refs s a \<le> ref_count j"
    and "payload s a = Some j \<Longrightarrow> 1 \<le> ref_count j"
    and "map_of (icon_cache s) k = Some a \<Longrightarrow> payload s a \<noteq> None"
    and "payload s (fallback_icon s) \<noteq> None"
    and "distinct (map fst (icon_cache s))"
    and "payload s a \<noteq> None \<Longrightarrow> a < next_free s"
  using assms map_of_value_in [of "icon_cache s" k a] unfolding refs_ok_def by blast+

lemma g_hash_table_insert_ok:
  assumes ok: "cache_ok s xs" and c: "payload s c = Some j"
    and ex: "table_refs s c < ref_count j" and named: "name key \<noteq> None"
  shows "\<exists>s'. g_hash_table_insert key c s = Some s' \<and>
           icon_cache s' = table_store key c (icon_cache s) \<and>
           fallback_icon s' = fallback_icon s \<and> next_free s' = next_free s \<and>
           sweep_timer s' = sweep_timer s \<and>
           (case map_of (icon_cache s) key of
              None \<Rightarrow> payload s' = payload s \<and> cache_ok s' xs
            | Some old \<Rightarrow> \<exists>jo. payload s old = Some jo \<and>
                payload s' = (payload s)(old := (if 1 < ref_count jo
                   then Some (jo\<lparr>ref_count := ref_count jo - 1\<rparr>) else None)) \<and>
                cache_ok s' (if 1 < ref_count jo then xs else remove1 old xs))"
proof -
  have ro: "refs_ok s" using ok by (simp add: cache_ok_def)
  let ?t = "table_store key c (icon_cache s)"
  let ?s1 = "s\<lparr>icon_cache := ?t\<rparr>"
  have cnt: "\<And>b. count_list (map snd ?t) b + (if map_of (icon_cache s) key = Some b then 1 else 0) =
      count_list (map snd (icon_cache s)) b + (if b = c then 1 else 0)"
    by (rule count_table_store)
  have ok1: "cache_ok ?s1 xs"
  proof (rule retable_ok [OF ok])
    show "distinct (map fst ?t)" using refs_okD(5) [OF ro] by (rule distinct_table_store)
    show "\<forall>a\<in>snd ` set ?t. payload s a \<noteq> None"
    proof
      fix a assume "a \<in> snd ` set ?t"
      then have "a = c \<or> a \<in> snd ` set (icon_cache s)"
        using set_table_store [of key c "icon_cache s"] by blast
      then show "payload s a \<noteq> None" using c ro unfolding refs_ok_def by auto
    qed
  next
    fix b k assume b: "payload s b = Some k"
    have "table_refs s b \<le> ref_count k" using refs_okD(1) [OF ro b] .
    moreover have "b = c \<Longrightarrow> table_refs s b < ref_count k" using ex b c by simp
    ultimately show "count_list (map snd ?t) b + (if b = fallback_icon s then 1 else 0)
        \<le> ref_count k"
      using cnt [of b] by (auto simp: table_refs_def split: if_splits)
  qed
  show ?thesis
  proof (cases "map_of (icon_cache s) key")
    case None
    then have "g_hash_table_insert key c s = Some ?s1"
      using named by (simp add: g_hash_table_insert_def g_hash_table_lookup_map_of)
    then show ?thesis using None ok1 by simp
  next
    case (Some old)
    have run: "g_hash_table_insert key c s = cache_icon_unref old ?s1"
      using Some named by (auto simp: g_hash_table_insert_def g_hash_table_lookup_map_of)
    obtain jo where jo: "payload s old = Some jo"
      using refs_okD(3) [OF ro Some] by auto
    have "0 < count_list (map snd (icon_cache s)) old"
      using map_of_value_in [OF Some] by (metis count_list_0_iff gr0I set_map)
    moreover have "table_refs s old \<le> ref_count jo" using refs_okD(1) [OF ro jo] .
    moreover have "old = c \<Longrightarrow> table_refs s old < ref_count jo" using ex jo c by simp
    ultimately have ex1: "table_refs ?s1 old < ref_count jo"
      using cnt [of old] Some by (auto simp: table_refs_def split: if_splits)
    have jo1: "payload ?s1 old = Some jo" using jo by simp
    from cache_icon_unref_ok [OF ok1 jo1 ex1] obtain s' where
      "cache_icon_unref old ?s1 = Some s'"
      "payload s' = (payload ?s1)(old := (if 1 < ref_count jo
              then Some (jo\<lparr>ref_count := ref_count jo - 1\<rparr>) else None))"
      "cache_ok s' (if 1 < ref_count jo then xs else remove1 old xs)"
      "icon_cache s' = icon_cache ?s1" "fallback_icon s' = fallback_icon ?s1"
      "next_free s' = next_free ?s1" "sweep_timer s' = sweep_timer ?s1"
      by blast
    then show ?thesis using run Some jo by simp
  qed
qed

lemma drop_entry_ok:
  assumes ok: "cache_ok s xs" and kv: "map_of (icon_cache s) k = Some v"
  shows "\<exists>s' jo. payload s v = Some jo \<and>
           cache_icon_unref v (s\<lparr>icon_cache := table_delete k (icon_cache s)\<rparr>) = Some s' \<and>
           payload s' = (payload s)(v := (if 1 < ref_count jo
              then Some (jo\<lparr>ref_count := ref_count jo - 1\<rparr>) else None)) \<and>
           cache_ok s' (if 1 < ref_count jo then xs else remove1 v xs) \<and>
           icon_cache s' = table_delete k (icon_cache s) \<and>
           fallback_icon s' = fallback_icon s \<and> next_free s' = next_free s \<and>
           sweep_timer s' = sweep_timer s"
proof -
  have ro: "refs_ok s" using ok by (simp add: cache_ok_def)
  let ?t = "table_delete k (icon_cache s)"
  let ?s1 = "s\<lparr>icon_cache := ?t\<rparr>"
  have cnt: "\<And>b. count_list (map snd ?t) b + (if map_of (icon_cache s) k = Some b then 1 else 0) =
      count_list (map snd (icon_cache s)) b"
    by (rule count_table_delete)
  have ok1: "cache_ok ?s1 xs"
  proof (rule retable_ok [OF ok])
    show "distinct (map fst ?t)" using refs_okD(5) [OF ro] by (rule distinct_table_delete)
    show "\<forall>a\<in>snd ` set ?t. payload s a \<noteq> None"
    proof
      fix a assume "a \<in> snd ` set ?t"
      then have "a \<in> snd ` set (icon_cache s)"
        using set_table_delete [of k "icon_cache s"] by blast
      then show "payload s a \<noteq> None" using ro unfolding refs_ok_def by blast
    qed
  next
    fix b j assume b: "payload s b = Some j"
    have "table_refs s b \<le> ref_count j" using refs_okD(1) [OF ro b] .
    then show "count_list (map snd ?t) b + (if b = fallback_icon s then 1 else 0) \<le> ref_count j"
      using cnt [of b] by (auto simp: table_refs_def split: if_splits)
  qed
  obtain jo where jo: "payload s v = Some jo"
    using refs_okD(3) [OF ro kv] by auto
  have "table_refs s v \<le> ref_count jo" using refs_okD(1) [OF ro jo] .
  then have ex1: "table_refs ?s1 v < ref_count jo"
    using cnt [of v] kv by (auto simp: table_refs_def split: if_splits)
  have jo1: "payload ?s1 v = Some jo" using jo by simp
  from cache_icon_unref_ok [OF ok1 jo1 ex1] obtain s' where
    "cache_icon_unref v ?s1 = Some s'"
    "payload s' = (payload ?s1)(v := (if 1 < ref_count jo
            then Some (jo\<lparr>ref_count := ref_count jo - 1\<rparr>) else None))"
    "cache_ok s' (if 1 < ref_count jo then xs else remove1 v xs)"
    "icon_cache s' = icon_cache ?s1" "fallback_icon s' = fallback_icon ?s1"
    "next_free s' = next_free ?s1" "sweep_timer s' = sweep_timer ?s1"
    by blast
  then show ?thesis using jo by simp
qed

subsection \<open>Walking the table\<close>

lemma foreach_remove_rule:
  assumes I0: "I s kept" and t0: "icon_cache s = kept @ rest"
    and step: "\<And>s kept k v rest'. I s kept \<Longrightarrow> icon_cache s = kept @ (k, v) # rest' \<Longrightarrow>
        \<exists>b s1. func k v s = Some (b, s1) \<and>
          (if b then \<exists>s2. cache_icon_unref v (s1\<lparr>icon_cache := table_delete k (icon_cache s1)\<rparr>)
                        = Some s2 \<and> I s2 kept \<and> icon_cache s2 = kept @ rest'
           else I s1 (kept @ [(k, v)]) \<and> icon_cache s1 = kept @ (k, v) # rest')"
  shows "\<exists>s'. foreach_remove func rest s = Some s' \<and> I s' (icon_cache s')"
  using I0 t0
proof (induction rest arbitrary: s kept)
  case Nil
  then show ?case by simp
next
  case (Cons x rest)
  obtain k v where x: "x = (k, v)" by (cases x)
  from step [OF Cons.prems(1)] Cons.prems(2) x obtain b s1 where
    f: "func k v s = Some (b, s1)"
    and c: "if b then \<exists>s2. cache_icon_unref v (s1\<lparr>icon_cache := table_delete k (icon_cache s1)\<rparr>)
                        = Some s2 \<and> I s2 kept \<and> icon_cache s2 = kept @ rest
           else I s1 (kept @ [(k, v)]) \<and> icon_cache s1 = kept @ (k, v) # rest"
    by blast
  show ?case
  proof (cases b)
    case True
    then obtain s2 where u: "cache_icon_unref v (s1\<lparr>icon_cache := table_delete k (icon_cache s1)\<rparr>)
        = Some s2" and i2: "I s2 kept" and t2: "icon_cache s2 = kept @ rest"
      using c by auto
    from Cons.IH [OF i2 t2] show ?thesis using f u True x by simp
  next
    case False
    then have i1: "I s1 (kept @ [(k, v)])" and t1: "icon_cache s1 = (kept @ [(k, v)]) @ rest"
      using c by auto
    from Cons.IH [OF i1 t1] show ?thesis using f False x by simp
  qed
qed

lemma map_of_middle:
  "distinct (map fst (kept @ (k, v) # rest)) \<Longrightarrow> map_of (kept @ (k, v) # rest) k = Some v"
  by (induction kept) auto

lemma refs_ok_update:
  assumes ro: "refs_ok s" and i: "icons s a = Some i" and le: "ref_count i \<le> ref_count i'"
  shows "refs_ok (s\<lparr>icons := (icons s)(a \<mapsto> i')\<rparr>)"
proof -
  let ?s' = "s\<lparr>icons := (icons s)(a \<mapsto> i')\<rparr>"
  have pl: "payload ?s' = (payload s)(a \<mapsto> strip i')" by (simp add: projections_icons_upd)
  have pa: "payload s a = Some (strip i)" using i by (rule payload_Some)
  have tr: "\<And>b. table_refs ?s' b = table_refs s b" by (simp add: table_refs_def)
  show ?thesis
    unfolding refs_ok_def
  proof (intro conjI ballI allI impI)
    show "distinct (map fst (icon_cache ?s'))" using refs_okD(5) [OF ro] by simp
    show "payload ?s' (fallback_icon ?s') \<noteq> None" using refs_okD(4) [OF ro] pl by simp
  next
    fix b assume "b \<in> snd ` set (icon_cache ?s')"
    then have "payload s b \<noteq> None" using ro unfolding refs_ok_def by auto
    then show "payload ?s' b \<noteq> None" using pl by simp
  next
    fix b j assume bj: "payload ?s' b = Some j"
    have "table_refs ?s' b \<le> ref_count j \<and> 1 \<le> ref_count j"
    proof (cases "b = a")
      case True
      then have "j = strip i'" using bj pl by simp
      then show ?thesis
        using refs_okD(1,2) [OF ro pa] le True tr by simp
    next
      case False
      then have "payload s b = Some j" using bj pl by simp
      then show ?thesis using refs_okD(1,2) [OF ro] tr by simp
    qed
    then show "table_refs ?s' b \<le> ref_count j" "1 \<le> ref_count j" by simp_all
  next
    fix b assume "payload ?s' b \<noteq> None"
    then have "payload s b \<noteq> None" using pl pa by (cases "b = a") auto
    then show "b < next_free ?s'" using refs_okD(6) [OF ro] by simp
  qed
qed

lemma cache_ok_update:
  assumes ok: "cache_ok s xs" and i: "icons s a = Some i" and le: "ref_count i \<le> ref_count i'"
    and nd: "recently_used_node i' = recently_used_node i"
  shows "cache_ok (s\<lparr>icons := (icons s)(a \<mapsto> i')\<rparr>) xs"
  using ok ring_set_icon [OF _ i nd] refs_ok_update [OF _ i le] by (simp add: cache_ok_def)

lemma in_list_iff:
  assumes r: "ring {} s xs" and i: "icons s a = Some i"
  shows "a \<in> set xs \<longleftrightarrow> c_next (recently_used_node i) \<noteq> Null"
proof
  assume "a \<in> set xs"
  then show "c_next (recently_used_node i) \<noteq> Null"
    using ring_inner(1) [OF r, of a] nxt_prv_icon(1) [OF i] by metis
next
  assume n: "c_next (recently_used_node i) \<noteq> Null"
  show "a \<in> set xs"
  proof (rule ccontr)
    assume "a \<notin> set xs"
    then have "nxt s (Node a) = Null" using ring_outside [OF r _ _] i by simp
    then show False using n nxt_prv_icon(1) [OF i] by simp
  qed
qed

subsection \<open>The sweep on a well-formed memory\<close>

lemma sweep_step:
  assumes ok: "cache_ok s xs" and t: "icon_cache s = kept @ (k, v) # rest"
  shows "\<exists>b s1. nautilus_icon_factory_possibly_free_cached_icon k v s = Some (b, s1) \<and>
          (if b then \<exists>s2. cache_icon_unref v (s1\<lparr>icon_cache := table_delete k (icon_cache s1)\<rparr>)
                        = Some s2 \<and> cache_ok s2 xs \<and> v \<notin> set xs \<and>
                        icon_cache s2 = kept @ rest \<and> fallback_icon s2 = fallback_icon s
           else s1 = s)"
proof -
  have ro: "refs_ok s" and r: "ring {} s xs" using ok by (simp_all add: cache_ok_def)
  have d: "distinct (map fst (kept @ (k, v) # rest))" using refs_okD(5) [OF ro] t by simp
  have kv: "map_of (icon_cache s) k = Some v" using map_of_middle [OF d] t by simp
  obtain icon where i: "icons s v = Some icon"
    using refs_okD(3) [OF ro kv] by (auto simp: payload_None)
  show ?thesis
  proof (cases "c_next (recently_used_node icon) \<noteq> Null \<or> pixbuf_ref_count icon > 1")
    case True
    then have "nautilus_icon_factory_possibly_free_cached_icon k v s = Some (False, s)"
      using i by (auto simp: nautilus_icon_factory_possibly_free_cached_icon_def)
    then show ?thesis by (intro exI [of _ False] exI [of _ s]) simp
  next
    case False
    define s1 where "s1 = s\<lparr>icons := (icons s)(v \<mapsto> icon\<lparr>age := age icon + 1\<rparr>)\<rparr>"
    have f: "nautilus_icon_factory_possibly_free_cached_icon k v s = Some (True, s1)"
      using i False
      by (auto simp: nautilus_icon_factory_possibly_free_cached_icon_def Let_def s1_def)
    have ok1: "cache_ok s1 xs" unfolding s1_def using cache_ok_update [OF ok i] by simp
    have t1: "icon_cache s1 = icon_cache s" "fallback_icon s1 = fallback_icon s"
      by (simp_all add: s1_def)
    have kv1: "map_of (icon_cache s1) k = Some v" using kv t1 by simp
    have vx: "v \<notin> set xs" using in_list_iff [OF r i] False by simp
    from drop_entry_ok [OF ok1 kv1] obtain s2 and jo :: CacheIcon where
      u: "cache_icon_unref v (s1\<lparr>icon_cache := table_delete k (icon_cache s1)\<rparr>) = Some s2"
      and ok2: "cache_ok s2 (if 1 < ref_count jo then xs else remove1 v xs)"
      and t2: "icon_cache s2 = table_delete k (icon_cache s1)"
      and fb: "fallback_icon s2 = fallback_icon s1"
      by blast
    have "remove1 v xs = xs" using vx by (simp add: remove1_idem)
    then have "cache_ok s2 xs" using ok2 by (simp split: if_splits)
    moreover have "icon_cache s2 = kept @ rest" using t2 t t1 table_delete_middle [OF d] by simp
    ultimately show ?thesis using f u vx fb t1
      by (intro exI [of _ True] exI [of _ s1]) simp
  qed
qed

lemma sweep_ok:
  assumes ok: "cache_ok s xs"
  shows "\<exists>s'. nautilus_icon_factory_sweep s = Some s' \<and> cache_ok s' xs \<and>
           fallback_icon s' = fallback_icon s \<and>
           (\<forall>k a. a \<in> set xs \<and> map_of (icon_cache s) k = Some a \<longrightarrow>
                  map_of (icon_cache s') k = Some a)"
proof -
  define I where "I = (\<lambda>s' (kept :: (CacheKey \<times> nat) list). cache_ok s' xs \<and>
      fallback_icon s' = fallback_icon s \<and>
      (\<forall>k a. a \<in> set xs \<and> map_of (icon_cache s) k = Some a \<longrightarrow>
             map_of (icon_cache s') k = Some a))"
  have I0: "I s []" using ok by (simp add: I_def)
  have t0: "icon_cache s = [] @ icon_cache s" by simp
  have "\<exists>s'. foreach_remove nautilus_icon_factory_possibly_free_cached_icon (icon_cache s) s
           = Some s' \<and> I s' (icon_cache s')"
  proof (rule foreach_remove_rule [of I, OF I0 t0])
    fix s1 kept k v rest'
    assume i1: "I s1 kept" and t1: "icon_cache s1 = kept @ (k, v) # rest'"
    have ok1: "cache_ok s1 xs" using i1 by (simp add: I_def)
    have d: "distinct (map fst (icon_cache s1))"
      using ok1 refs_okD(5) by (simp add: cache_ok_def)
    from sweep_step [OF ok1 t1] obtain b s2 where
      f: "nautilus_icon_factory_possibly_free_cached_icon k v s1 = Some (b, s2)"
      and c: "if b then \<exists>s3. cache_icon_unref v (s2\<lparr>icon_cache := table_delete k (icon_cache s2)\<rparr>)
                        = Some s3 \<and> cache_ok s3 xs \<and> v \<notin> set xs \<and>
                        icon_cache s3 = kept @ rest' \<and> fallback_icon s3 = fallback_icon s1
           else s2 = s1"
      by blast
    show "\<exists>b s2. nautilus_icon_factory_possibly_free_cached_icon k v s1 = Some (b, s2) \<and>
          (if b then \<exists>s3. cache_icon_unref v (s2\<lparr>icon_cache := table_delete k (icon_cache s2)\<rparr>)
                        = Some s3 \<and> I s3 kept \<and> icon_cache s3 = kept @ rest'
           else I s2 (kept @ [(k, v)]) \<and> icon_cache s2 = kept @ (k, v) # rest')"
    proof (cases b)
      case False
      then show ?thesis using f c i1 t1 by (auto simp: I_def)
    next
      case True
      then obtain s3 where
        u: "cache_icon_unref v (s2\<lparr>icon_cache := table_delete k (icon_cache s2)\<rparr>) = Some s3"
        and ok3: "cache_ok s3 xs" and vx: "v \<notin> set xs"
        and t3: "icon_cache s3 = kept @ rest'" and fb: "fallback_icon s3 = fallback_icon s1"
        using c by auto
      have kv: "map_of (icon_cache s1) k = Some v" using map_of_middle d t1 by metis
      have t3': "icon_cache s3 = table_delete k (icon_cache s1)"
        using t3 t1 d table_delete_middle by metis
      have "\<And>k' a. a \<in> set xs \<Longrightarrow> map_of (icon_cache s) k' = Some a \<Longrightarrow>
             map_of (icon_cache s3) k' = Some a"
      proof -
        fix k' a assume a: "a \<in> set xs" and m: "map_of (icon_cache s) k' = Some a"
        then have m1: "map_of (icon_cache s1) k' = Some a" using i1 by (simp add: I_def)
        then have "k' \<noteq> k" using kv vx a by auto
        then show "map_of (icon_cache s3) k' = Some a"
          using m1 t3' map_of_table_delete [OF d] by simp
      qed
      then have "I s3 kept" using ok3 fb i1 by (simp add: I_def)
      then show ?thesis using f u t3 True by auto
    qed
  qed
  then obtain s' where
    f: "foreach_remove nautilus_icon_factory_possibly_free_cached_icon (icon_cache s) s = Some s'"
    and i: "I s' (icon_cache s')" by blast
  have "nautilus_icon_factory_sweep s = Some (s'\<lparr>sweep_timer := 0\<rparr>)"
    using f by (simp add: nautilus_icon_factory_sweep_def g_hash_table_foreach_remove_def)
  moreover have "cache_ok (s'\<lparr>sweep_timer := 0\<rparr>) xs"
  proof -
    have "refs_ok (s'\<lparr>sweep_timer := 0\<rparr>) = refs_ok s'" by (rule refs_ok_cong) simp_all
    then show ?thesis using i by (simp add: I_def cache_ok_def)
  qed
  ultimately show ?thesis using i by (simp add: I_def)
qed

subsection \<open>The example memories are well formed\<close>

lemma ring_listed_factory: "ring {} listed_factory [1]"
  by (auto simp: ring_def listed_factory_def listed_icon_def plain_icon_def
      nautilus_icon_factory_instance_init_def nxt_def prv_def get_next.simps get_prev.simps
      split: if_splits)

lemma refs_ok_listed_factory: "refs_ok listed_factory"
  by (auto simp: refs_ok_def table_refs_def payload_def listed_factory_def listed_icon_def
      plain_icon_def nautilus_icon_factory_instance_init_def split: if_splits)

lemma cache_ok_listed_factory: "cache_ok listed_factory [1]"
  using ring_listed_factory refs_ok_listed_factory
  by (simp add: cache_ok_def ICON_CACHE_COUNT_def) (simp add: listed_factory_def)

lemma cache_ok_instance_init: "cache_ok nautilus_icon_factory_instance_init []"
  by (auto simp: cache_ok_def ring_def refs_ok_def table_refs_def payload_def
      nautilus_icon_factory_instance_init_def nxt_def prv_def get_next.simps get_prev.simps
      split: if_splits)

subsection \<open>The steps of a lookup\<close>

lemma still_fresh_eq:
  "icons s a = Some i \<Longrightarrow>
   still_fresh e nm a s = Some (if stale e nm (mtime i) then None else Some a)"
  by (auto simp: still_fresh_def stale_def split: option.splits)

lemma strip_new_icon [simp]: "strip (new_icon mt) = new_icon mt"
  by (simp add: strip_def new_icon_def)

lemma next_free_fresh: "refs_ok s \<Longrightarrow> icons s (next_free s) = None"
  using refs_okD(6) [of s "next_free s"] by (cases "icons s (next_free s)") (auto simp: payload_def)

lemma with_new_icon_ok:
  assumes ok: "cache_ok s xs"
  shows "cache_ok (with_new_icon mt s) xs"
    and "payload (with_new_icon mt s) = (payload s)(next_free s \<mapsto> new_icon mt)"
    and "table_refs (with_new_icon mt s) (next_free s) = 0"
proof -
  have ro: "refs_ok s" and r: "ring {} s xs" using ok by (simp_all add: cache_ok_def)
  have fr: "icons s (next_free s) = None" using next_free_fresh [OF ro] .
  then have pfr: "payload s (next_free s) = None" by (simp add: payload_None)
  let ?a = "next_free s"
  let ?s1 = "s\<lparr>icons := (icons s)(?a \<mapsto> new_icon mt)\<rparr>"
  let ?s' = "with_new_icon mt s"
  have e: "recently_used_dummy_head ?s' = recently_used_dummy_head ?s1" "icons ?s' = icons ?s1"
    by (simp_all add: with_new_icon_def)
  have proj: "nxt ?s' = nxt ?s1" "prv ?s' = prv ?s1" "payload ?s' = payload ?s1"
    using projections_cong [OF e] by simp_all
  show pl: "payload ?s' = (payload s)(?a \<mapsto> new_icon mt)"
    using proj by (simp add: projections_icons_upd)
  have r1: "ring {} ?s1 xs" by (rule ring_new [OF r fr]) (simp add: new_icon_def)
  have "ring {} ?s' xs = ring {} ?s1 xs"
    by (rule ring_live_cong) (use proj in \<open>simp_all add: with_new_icon_def\<close>)
  then have r': "ring {} ?s' xs" using r1 by simp
  have nf: "?a \<noteq> fallback_icon s" using refs_okD(4) [OF ro] pfr by auto
  have nv: "?a \<notin> snd ` set (icon_cache s)" using ro pfr unfolding refs_ok_def by blast
  then have c0: "count_list (map snd (icon_cache s)) ?a = 0"
    by (metis count_list_0_iff set_map)
  have tr: "\<And>b. table_refs ?s' b = table_refs s b"
    by (simp add: table_refs_def with_new_icon_def)
  show t0: "table_refs ?s' ?a = 0" using tr c0 nf by (simp add: table_refs_def)
  have ro': "refs_ok ?s'"
    unfolding refs_ok_def
  proof (intro conjI ballI allI impI)
    show "distinct (map fst (icon_cache ?s'))"
      using refs_okD(5) [OF ro] by (simp add: with_new_icon_def)
    show "payload ?s' (fallback_icon ?s') \<noteq> None"
      using refs_okD(4) [OF ro] pl by (simp add: with_new_icon_def)
  next
    fix b assume "b \<in> snd ` set (icon_cache ?s')"
    then have "payload s b \<noteq> None" using ro unfolding refs_ok_def
      by (auto simp: with_new_icon_def)
    then show "payload ?s' b \<noteq> None" using pl by simp
  next
    fix b j assume bj: "payload ?s' b = Some j"
    have "table_refs ?s' b \<le> ref_count j \<and> 1 \<le> ref_count j"
    proof (cases "b = ?a")
      case True
      then have "j = new_icon mt" using bj pl by simp
      then show ?thesis using t0 True by (simp add: new_icon_def)
    next
      case False
      then have "payload s b = Some j" using bj pl by simp
      then show ?thesis using refs_okD(1,2) [OF ro] tr by simp
    qed
    then show "table_refs ?s' b \<le> ref_count j" "1 \<le> ref_count j" by simp_all
  next
    fix b assume "payload ?s' b \<noteq> None"
    then have "b = ?a \<or> payload s b \<noteq> None" using pl by (auto split: if_splits)
    then show "b < next_free ?s'"
      using refs_okD(6) [OF ro, of b] by (auto simp: with_new_icon_def)
  qed
  show "cache_ok ?s' xs" using ok r' ro' by (simp add: cache_ok_def with_new_icon_def)
qed

lemma cache_icon_ref_ok:
  assumes ok: "cache_ok s xs" and j: "payload s a = Some j"
  shows "\<exists>s'. cache_icon_ref a s = Some s' \<and> cache_ok s' xs \<and>
           payload s' = (payload s)(a \<mapsto> j\<lparr>ref_count := ref_count j + 1\<rparr>) \<and>
           table_refs s' a < ref_count j + 1 \<and>
           icon_cache s' = icon_cache s \<and> fallback_icon s' = fallback_icon s \<and>
           next_free s' = next_free s \<and> sweep_timer s' = sweep_timer s"
proof -
  obtain i where i: "icons s a = Some i" and ji: "j = strip i" using payload_SomeD [OF j] by auto
  have ro: "refs_ok s" using ok by (simp add: cache_ok_def)
  have rc: "1 \<le> ref_count i" and tr: "table_refs s a \<le> ref_count i"
    using refs_okD(1,2) [OF ro j] ji by simp_all
  let ?s' = "s\<lparr>icons := (icons s)(a \<mapsto> i\<lparr>ref_count := ref_count i + 1\<rparr>)\<rparr>"
  have "cache_icon_ref a s = Some ?s'" using i rc by (simp add: cache_icon_ref_def)
  moreover have "cache_ok ?s' xs" by (rule cache_ok_update [OF ok i]) simp_all
  moreover have "table_refs ?s' a = table_refs s a" by (simp add: table_refs_def)
  ultimately show ?thesis using tr ji by (simp add: projections_icons_upd)
qed

lemma load_and_insert_eq:
  "load_and_insert e nm m sz f s =
     (case synthesis_with_retry e nm m sz f of
        Some mt \<Rightarrow>
          map_option (Pair (next_free s))
            (g_hash_table_insert \<lparr>name = Some nm, modifier = m, nominal_size = sz,
               force_nominal = f\<rparr> (next_free s) (with_new_icon mt s))
      | None \<Rightarrow>
          Option.bind (cache_icon_ref (fallback_icon s) s) (\<lambda>s'.
            map_option (Pair (fallback_icon s))
              (g_hash_table_insert \<lparr>name = Some nm, modifier = m, nominal_size = sz,
                 force_nominal = f\<rparr> (fallback_icon s) s')))"
  by (auto simp: load_and_insert_def create_normal_cache_icon_eq synthesis_with_retry_def
      Let_def map_option_case split: option.splits bind_splits)

lemma load_and_insert_ok:
  assumes ok: "cache_ok s xs"
    and key_def: "key = \<lparr>name = Some nm, modifier = m, nominal_size = sz, force_nominal = f\<rparr>"
  shows "\<exists>c s' xs'. load_and_insert e nm m sz f s = Some (c, s') \<and> cache_ok s' xs' \<and>
           icon_cache s' = table_store key c (icon_cache s) \<and>
           fallback_icon s' = fallback_icon s \<and> sweep_timer s' = sweep_timer s \<and>
           xs' = (case map_of (icon_cache s) key of
                    None \<Rightarrow> xs
                  | Some old \<Rightarrow> if payload s' old = None then remove1 old xs else xs) \<and>
           (\<forall>b. b \<noteq> c \<and> map_of (icon_cache s) key \<noteq> Some b \<longrightarrow> payload s' b = payload s b) \<and>
           (case synthesis_with_retry e nm m sz f of
              Some mt \<Rightarrow> c = next_free s \<and> next_free s' = next_free s + 1 \<and>
                         payload s' c = Some (new_icon mt)
            | None \<Rightarrow> c = fallback_icon s \<and> next_free s' = next_free s \<and>
                (\<exists>j. payload s c = Some j \<and>
                   payload s' c = Some (j\<lparr>ref_count := ref_count j +
                      (if map_of (icon_cache s) key = Some c then 0 else 1)\<rparr>)))"
proof (cases "synthesis_with_retry e nm m sz f")
  case (Some mt)
  have named: "name key \<noteq> None" by (simp add: key_def)
  define c where "c = next_free s"
  define s1 where "s1 = with_new_icon mt s"
  have ro: "refs_ok s" using ok by (simp add: cache_ok_def)
  have ok1: "cache_ok s1 xs" and pl1: "payload s1 = (payload s)(c \<mapsto> new_icon mt)"
    and t1: "table_refs s1 c = 0"
    unfolding s1_def c_def using with_new_icon_ok [OF ok] by simp_all
  have f1: "icon_cache s1 = icon_cache s" "fallback_icon s1 = fallback_icon s"
    "next_free s1 = next_free s + 1" "sweep_timer s1 = sweep_timer s"
    by (simp_all add: s1_def with_new_icon_def)
  have pc: "payload s1 c = Some (new_icon mt)" using pl1 by simp
  have ex: "table_refs s1 c < ref_count (new_icon mt)" using t1 by (simp add: new_icon_def)
  have fresh: "payload s c = None"
    using next_free_fresh [OF ro] by (simp add: c_def payload_None)
  from g_hash_table_insert_ok [OF ok1 pc ex named] obtain s' where
    ins: "g_hash_table_insert key c s1 = Some s'"
    and t': "icon_cache s' = table_store key c (icon_cache s1)"
    and f': "fallback_icon s' = fallback_icon s1" "next_free s' = next_free s1"
        "sweep_timer s' = sweep_timer s1"
    and cs: "case map_of (icon_cache s1) key of
              None \<Rightarrow> payload s' = payload s1 \<and> cache_ok s' xs
            | Some old \<Rightarrow> \<exists>jo. payload s1 old = Some jo \<and>
                payload s' = (payload s1)(old := (if 1 < ref_count jo
                   then Some (jo\<lparr>ref_count := ref_count jo - 1\<rparr>) else None)) \<and>
                cache_ok s' (if 1 < ref_count jo then xs else remove1 old xs)"
    by blast
  have run: "load_and_insert e nm m sz f s = Some (c, s')"
    using Some ins by (simp add: load_and_insert_eq key_def c_def s1_def)
  show ?thesis
  proof (cases "map_of (icon_cache s) key")
    case None
    then have "payload s' = payload s1" "cache_ok s' xs" using cs f1 by simp_all
    then show ?thesis using run t' f' f1 pl1 None Some by (auto simp: c_def)
  next
    case old: (Some old)
    then obtain jo :: CacheIcon where jo: "payload s1 old = Some jo"
      and pl': "payload s' = (payload s1)(old := (if 1 < ref_count jo
                   then Some (jo\<lparr>ref_count := ref_count jo - 1\<rparr>) else None))"
      and ok': "cache_ok s' (if 1 < ref_count jo then xs else remove1 old xs)"
      using cs f1 by auto
    have "payload s old \<noteq> None" using refs_okD(3) [OF ro old] .
    then have oc: "old \<noteq> c" using fresh by auto
    have "cache_ok s' (if payload s' old = None then remove1 old xs else xs)"
      using ok' pl' by (auto split: if_splits)
    moreover have "payload s' c = Some (new_icon mt)" using pl' pl1 oc by simp
    moreover have "\<forall>b. b \<noteq> c \<and> map_of (icon_cache s) key \<noteq> Some b \<longrightarrow>
        payload s' b = payload s b"
      using pl' pl1 old by auto
    ultimately show ?thesis using run t' f' f1 old Some
      by (intro exI [of _ c] exI [of _ s']
          exI [of _ "if payload s' old = None then remove1 old xs else xs"])
         (simp add: c_def)
  qed
next
  case None
  have named: "name key \<noteq> None" by (simp add: key_def)
  define c where "c = fallback_icon s"
  have ro: "refs_ok s" using ok by (simp add: cache_ok_def)
  obtain j :: CacheIcon where j: "payload s c = Some j"
    using refs_okD(4) [OF ro] by (auto simp: c_def)
  from cache_icon_ref_ok [OF ok j] obtain s1 where
    rf: "cache_icon_ref c s = Some s1" and ok1: "cache_ok s1 xs"
    and pl1: "payload s1 = (payload s)(c \<mapsto> j\<lparr>ref_count := ref_count j + 1\<rparr>)"
    and ex: "table_refs s1 c < ref_count j + 1"
    and f1: "icon_cache s1 = icon_cache s" "fallback_icon s1 = fallback_icon s"
       "next_free s1 = next_free s" "sweep_timer s1 = sweep_timer s"
    by blast
  have pc: "payload s1 c = Some (j\<lparr>ref_count := ref_count j + 1\<rparr>)" using pl1 by simp
  have ex': "table_refs s1 c < ref_count (j\<lparr>ref_count := ref_count j + 1\<rparr>)" using ex by simp
  from g_hash_table_insert_ok [OF ok1 pc ex' named] obtain s' where
    ins: "g_hash_table_insert key c s1 = Some s'"
    and t': "icon_cache s' = table_store key c (icon_cache s1)"
    and f': "fallback_icon s' = fallback_icon s1" "next_free s' = next_free s1"
        "sweep_timer s' = sweep_timer s1"
    and cs: "case map_of (icon_cache s1) key of
              None \<Rightarrow> payload s' = payload s1 \<and> cache_ok s' xs
            | Some old \<Rightarrow> \<exists>jo. payload s1 old = Some jo \<and>
                payload s' = (payload s1)(old := (if 1 < ref_count jo
                   then Some (jo\<lparr>ref_count := ref_count jo - 1\<rparr>) else None)) \<and>
                cache_ok s' (if 1 < ref_count jo then xs else remove1 old xs)"
    by blast
  have run: "load_and_insert e nm m sz f s = Some (c, s')"
    using None rf ins by (simp add: load_and_insert_eq key_def c_def)
  have rcj: "1 \<le> ref_count j" using refs_okD(2) [OF ro j] .
  show ?thesis
  proof (cases "map_of (icon_cache s) key")
    case none: None
    then have "payload s' = payload s1" "cache_ok s' xs" using cs f1 by simp_all
    then show ?thesis using run t' f' f1 pl1 none None j
      by (intro exI [of _ c] exI [of _ s'] exI [of _ xs]) (auto simp: c_def)
  next
    case old: (Some old)
    then obtain jo :: CacheIcon where jo: "payload s1 old = Some jo"
      and pl': "payload s' = (payload s1)(old := (if 1 < ref_count jo
                   then Some (jo\<lparr>ref_count := ref_count jo - 1\<rparr>) else None))"
      and ok': "cache_ok s' (if 1 < ref_count jo then xs else remove1 old xs)"
      using cs f1 by auto
    have okx: "cache_ok s' (if payload s' old = None then remove1 old xs else xs)"
      using ok' pl' by (auto split: if_splits)
    have others: "\<forall>b. b \<noteq> c \<and> map_of (icon_cache s) key \<noteq> Some b \<longrightarrow>
        payload s' b = payload s b"
      using pl' pl1 old by auto
    have pc': "payload s' c = Some (j\<lparr>ref_count := ref_count j +
                      (if map_of (icon_cache s) key = Some c then 0 else 1)\<rparr>)"
    proof (cases "old = c")
      case True
      then have "jo = j\<lparr>ref_count := ref_count j + 1\<rparr>" using jo pc by simp
      then show ?thesis using pl' True old rcj by simp
    next
      case False
      then show ?thesis using pl' pl1 old by simp
    qed
    show ?thesis using run t' f' f1 old None okx others pc' j
      by (intro exI [of _ c] exI [of _ s']
          exI [of _ "if payload s' old = None then remove1 old xs else xs"])
         (simp add: c_def)
  qed
qed

lemma length_promote: "length xs \<le> ICON_CACHE_COUNT \<Longrightarrow> length (promote a xs) \<le> ICON_CACHE_COUNT"
proof (cases "a \<in> set xs")
  case True
  assume "length xs \<le> ICON_CACHE_COUNT"
  moreover have "0 < length xs" using True by (cases xs) auto
  ultimately show ?thesis using True by (simp add: promote_def length_remove1)
next
  case False
  assume "length xs \<le> ICON_CACHE_COUNT"
  then show ?thesis using False by (cases xs) (auto simp: promote_def ICON_CACHE_COUNT_def)
qed


lemma hd_promote [simp]: "hd (promote a xs) = a" "a \<in> set (promote a xs)"
  by (simp_all add: promote_def)

lemma schedule_sweep_ok:
  "cache_ok s xs \<Longrightarrow> cache_ok (nautilus_icon_factory_schedule_sweep s) xs"
  "payload (nautilus_icon_factory_schedule_sweep s) = payload s"
  "icon_cache (nautilus_icon_factory_schedule_sweep s) = icon_cache s"
  "fallback_icon (nautilus_icon_factory_schedule_sweep s) = fallback_icon s"
  "next_free (nautilus_icon_factory_schedule_sweep s) = next_free s"
  "sweep_timer (nautilus_icon_factory_schedule_sweep s) \<noteq> 0"
  "nxt (nautilus_icon_factory_schedule_sweep s) = nxt s"
  "prv (nautilus_icon_factory_schedule_sweep s) = prv s"
proof -
  have "refs_ok (s\<lparr>sweep_timer := 1\<rparr>) = refs_ok s" by (rule refs_ok_cong) simp_all
  then show "cache_ok s xs \<Longrightarrow> cache_ok (nautilus_icon_factory_schedule_sweep s) xs"
    by (simp add: nautilus_icon_factory_schedule_sweep_def cache_ok_def)
qed (simp_all add: nautilus_icon_factory_schedule_sweep_def)

lemma promote_phase:
  fixes j :: CacheIcon
  assumes ok: "cache_ok s xs" and j: "payload s c = Some j"
  shows "\<exists>s2 s3 s4. cache_icon_ref c s = Some s2 \<and> mark_recently_used (Node c) s2 = Some s3 \<and>
           set_age c 0 s3 = Some s4 \<and> cache_ok s4 (promote c xs) \<and>
           payload s4 = (payload s)(c \<mapsto> j\<lparr>ref_count := ref_count j + 1, age := 0\<rparr>) \<and>
           icon_cache s4 = icon_cache s \<and> fallback_icon s4 = fallback_icon s \<and>
           next_free s4 = next_free s \<and> sweep_timer s4 = sweep_timer s"
proof -
  from cache_icon_ref_ok [OF ok j] obtain s2 where
    rf: "cache_icon_ref c s = Some s2" and ok2: "cache_ok s2 xs"
    and pl2: "payload s2 = (payload s)(c \<mapsto> j\<lparr>ref_count := ref_count j + 1\<rparr>)"
    and f2: "icon_cache s2 = icon_cache s" "fallback_icon s2 = fallback_icon s"
       "next_free s2 = next_free s" "sweep_timer s2 = sweep_timer s"
    by blast
  have r2: "ring {} s2 xs" and n2: "recently_used_count s2 = length xs"
    and len: "length xs \<le> ICON_CACHE_COUNT" and ro2: "refs_ok s2"
    using ok2 by (simp_all add: cache_ok_def)
  have l2: "icons s2 c \<noteq> None" using pl2 by (metis fun_upd_same option.distinct(1) payload_None)
  from mark_recently_used_ring [OF r2 n2 l2] obtain s3 where
    mk: "mark_recently_used (Node c) s2 = Some s3" and r3: "ring {} s3 (promote c xs)"
    and n3: "recently_used_count s3 = length (promote c xs)" and sd: "same_data s2 s3"
    by blast
  have ro3: "refs_ok s3" using refs_ok_same_data [OF sd] ro2 by simp
  have ok3: "cache_ok s3 (promote c xs)"
    using r3 n3 ro3 length_promote [OF len] by (simp add: cache_ok_def)
  have pl3: "payload s3 = payload s2" and f3: "icon_cache s3 = icon_cache s2"
    "fallback_icon s3 = fallback_icon s2" "next_free s3 = next_free s2"
    "sweep_timer s3 = sweep_timer s2"
    using sd by (simp_all add: same_data_def)
  have "payload s3 c = Some (j\<lparr>ref_count := ref_count j + 1\<rparr>)" using pl3 pl2 by simp
  then obtain i3 where i3: "icons s3 c = Some i3"
    and ji: "j\<lparr>ref_count := ref_count j + 1\<rparr> = strip i3"
    using payload_SomeD by blast
  let ?s4 = "s3\<lparr>icons := (icons s3)(c \<mapsto> i3\<lparr>age := 0\<rparr>)\<rparr>"
  have sa: "set_age c 0 s3 = Some ?s4" using i3 by (simp add: set_age_def)
  have ok4: "cache_ok ?s4 (promote c xs)" by (rule cache_ok_update [OF ok3 i3]) simp_all
  have pl4: "payload ?s4 = (payload s)(c \<mapsto> j\<lparr>ref_count := ref_count j + 1, age := 0\<rparr>)"
    using pl3 pl2 ji [symmetric] by (simp add: projections_icons_upd)
  show ?thesis using rf mk sa ok4 pl4 f2 f3 by simp
qed

lemma found_eq:
  assumes ro: "refs_ok s"
  shows "(case lookup_icon_from_cache (Some nm) m sz f s of
            None \<Rightarrow> Some None
          | Some a \<Rightarrow> still_fresh e nm a s)
         = Some (cache_hit e nm \<lparr>name = Some nm, modifier = m, nominal_size = sz,
                   force_nominal = f\<rparr> s)"
proof (cases "g_hash_table_lookup (icon_cache s) \<lparr>name = Some nm, modifier = m,
    nominal_size = sz, force_nominal = f\<rparr>")
  case None
  then show ?thesis by (simp add: lookup_icon_from_cache_def cache_hit_def)
next
  case (Some a)
  then have "payload s a \<noteq> None"
    using refs_okD(3) [OF ro] by (simp add: g_hash_table_lookup_map_of)
  then obtain i where "icons s a = Some i" by (auto simp: payload_None)
  then show ?thesis using Some
    by (simp add: lookup_icon_from_cache_def cache_hit_def still_fresh_eq)
qed

subsection \<open>A whole lookup\<close>

lemma get_icon_from_cache_eq:
  assumes ro: "refs_ok s"
  shows "get_icon_from_cache e (Some nm) m sz f s =
     Option.bind
       (case cache_hit e nm \<lparr>name = Some nm, modifier = m, nominal_size = sz,
               force_nominal = f\<rparr> s of
          Some a \<Rightarrow> Some (a, s)
        | None \<Rightarrow> load_and_insert e nm m sz f s)
       (\<lambda>(c, s1). Option.bind (cache_icon_ref c s1) (\<lambda>s2.
          Option.bind (mark_recently_used (Node c) s2) (\<lambda>s3.
            Option.bind (set_age c 0 s3) (\<lambda>s4.
              Some (Some c, nautilus_icon_factory_schedule_sweep s4)))))"
  by (simp add: get_icon_from_cache_def found_eq [OF ro])

lemma get_hit:
  assumes ok: "cache_ok s xs"
    and key: "key = \<lparr>name = Some nm, modifier = m, nominal_size = sz, force_nominal = f\<rparr>"
    and hit: "cache_hit e nm key s = Some a"
  shows "\<exists>s' j. get_icon_from_cache e (Some nm) m sz f s = Some (Some a, s') \<and>
           payload s a = Some j \<and> cache_ok s' (promote a xs) \<and>
           payload s' = (payload s)(a \<mapsto> j\<lparr>ref_count := ref_count j + 1, age := 0\<rparr>) \<and>
           icon_cache s' = icon_cache s \<and> fallback_icon s' = fallback_icon s \<and>
           next_free s' = next_free s \<and> sweep_timer s' \<noteq> 0"
proof -
  have ro: "refs_ok s" using ok by (simp add: cache_ok_def)
  obtain i where "icons s a = Some i"
    using hit by (auto simp: cache_hit_def split: option.splits if_splits)
  then have j: "payload s a = Some (strip i)" by (rule payload_Some)
  from promote_phase [OF ok j] obtain s2 s3 s4 where
    st: "cache_icon_ref a s = Some s2" "mark_recently_used (Node a) s2 = Some s3"
      "set_age a 0 s3 = Some s4"
    and ok4: "cache_ok s4 (promote a xs)"
    and pl4: "payload s4 = (payload s)(a \<mapsto> (strip i)\<lparr>ref_count := ref_count (strip i) + 1, age := 0\<rparr>)"
    and f4: "icon_cache s4 = icon_cache s" "fallback_icon s4 = fallback_icon s"
       "next_free s4 = next_free s"
    by blast
  have "get_icon_from_cache e (Some nm) m sz f s
      = Some (Some a, nautilus_icon_factory_schedule_sweep s4)"
    using hit st by (simp add: get_icon_from_cache_eq [OF ro] key [symmetric])
  then show ?thesis using j schedule_sweep_ok [of s4] ok4 pl4 f4 by auto
qed

lemma get_miss:
  assumes ok: "cache_ok s xs"
    and key: "key = \<lparr>name = Some nm, modifier = m, nominal_size = sz, force_nominal = f\<rparr>"
    and miss: "cache_hit e nm key s = None"
  shows "\<exists>c s' xs1. get_icon_from_cache e (Some nm) m sz f s = Some (Some c, s') \<and>
           cache_ok s' (promote c xs1) \<and>
           xs1 = (case map_of (icon_cache s) key of
                    None \<Rightarrow> xs
                  | Some old \<Rightarrow> if payload s' old = None then remove1 old xs else xs) \<and>
           icon_cache s' = table_store key c (icon_cache s) \<and>
           fallback_icon s' = fallback_icon s \<and> sweep_timer s' \<noteq> 0 \<and>
           (\<forall>b. b \<noteq> c \<and> map_of (icon_cache s) key \<noteq> Some b \<longrightarrow> payload s' b = payload s b) \<and>
           (case synthesis_with_retry e nm m sz f of
              Some mt \<Rightarrow> c = next_free s \<and> next_free s' = next_free s + 1 \<and>
                         payload s' c = Some ((new_icon mt)\<lparr>ref_count := 2\<rparr>)
            | None \<Rightarrow> c = fallback_icon s \<and> next_free s' = next_free s \<and>
                (\<exists>j. payload s c = Some j \<and>
                   payload s' c = Some (j\<lparr>ref_count := ref_count j +
                      (if map_of (icon_cache s) key = Some c then 1 else 2), age := 0\<rparr>)))"
proof -
  have ro: "refs_ok s" using ok by (simp add: cache_ok_def)
  from load_and_insert_ok [OF ok key, of e] obtain c s1 xs1 where
    li: "load_and_insert e nm m sz f s = Some (c, s1)" and ok1: "cache_ok s1 xs1"
    and t1: "icon_cache s1 = table_store key c (icon_cache s)"
    and f1: "fallback_icon s1 = fallback_icon s" "sweep_timer s1 = sweep_timer s"
    and x1: "xs1 = (case map_of (icon_cache s) key of
                    None \<Rightarrow> xs
                  | Some old \<Rightarrow> if payload s1 old = None then remove1 old xs else xs)"
    and o1: "\<forall>b. b \<noteq> c \<and> map_of (icon_cache s) key \<noteq> Some b \<longrightarrow> payload s1 b = payload s b"
    and c1: "case synthesis_with_retry e nm m sz f of
              Some mt \<Rightarrow> c = next_free s \<and> next_free s1 = next_free s + 1 \<and>
                         payload s1 c = Some (new_icon mt)
            | None \<Rightarrow> c = fallback_icon s \<and> next_free s1 = next_free s \<and>
                (\<exists>j. payload s c = Some j \<and>
                   payload s1 c = Some (j\<lparr>ref_count := ref_count j +
                      (if map_of (icon_cache s) key = Some c then 0 else 1)\<rparr>))"
    by blast
  obtain j1 :: CacheIcon where j1: "payload s1 c = Some j1"
    using c1 by (auto split: option.splits)
  from promote_phase [OF ok1 j1] obtain s2 s3 s4 where
    st: "cache_icon_ref c s1 = Some s2" "mark_recently_used (Node c) s2 = Some s3"
      "set_age c 0 s3 = Some s4"
    and ok4: "cache_ok s4 (promote c xs1)"
    and pl4: "payload s4 = (payload s1)(c \<mapsto> j1\<lparr>ref_count := ref_count j1 + 1, age := 0\<rparr>)"
    and f4: "icon_cache s4 = icon_cache s1" "fallback_icon s4 = fallback_icon s1"
       "next_free s4 = next_free s1"
    by blast
  define s' where "s' = nautilus_icon_factory_schedule_sweep s4"
  have run: "get_icon_from_cache e (Some nm) m sz f s = Some (Some c, s')"
    using miss li st by (simp add: get_icon_from_cache_eq [OF ro] key [symmetric] s'_def)
  have pl': "payload s' = (payload s1)(c \<mapsto> j1\<lparr>ref_count := ref_count j1 + 1, age := 0\<rparr>)"
    and f': "icon_cache s' = table_store key c (icon_cache s)"
      "fallback_icon s' = fallback_icon s" "next_free s' = next_free s1" "sweep_timer s' \<noteq> 0"
    and ok': "cache_ok s' (promote c xs1)"
    unfolding s'_def using schedule_sweep_ok [of s4] ok4 pl4 f4 t1 f1 by simp_all
  have none_iff: "\<And>old. payload s' old = None \<longleftrightarrow> payload s1 old = None"
    using pl' j1 by auto
  have x': "xs1 = (case map_of (icon_cache s) key of
                    None \<Rightarrow> xs
                  | Some old \<Rightarrow> if payload s' old = None then remove1 old xs else xs)"
    using x1 none_iff by (simp split: option.splits)
  have o': "\<forall>b. b \<noteq> c \<and> map_of (icon_cache s) key \<noteq> Some b \<longrightarrow> payload s' b = payload s b"
    using o1 pl' by simp
  have c': "case synthesis_with_retry e nm m sz f of
              Some mt \<Rightarrow> c = next_free s \<and> next_free s' = next_free s + 1 \<and>
                         payload s' c = Some ((new_icon mt)\<lparr>ref_count := 2\<rparr>)
            | None \<Rightarrow> c = fallback_icon s \<and> next_free s' = next_free s \<and>
                (\<exists>j. payload s c = Some j \<and>
                   payload s' c = Some (j\<lparr>ref_count := ref_count j +
                      (if map_of (icon_cache s) key = Some c then 1 else 2), age := 0\<rparr>))"
  proof (cases "synthesis_with_retry e nm m sz f")
    case (Some mt)
    then have "j1 = new_icon mt" using c1 j1 by simp
    then have "j1\<lparr>ref_count := ref_count j1 + 1, age := 0\<rparr> = (new_icon mt)\<lparr>ref_count := 2\<rparr>"
      by (simp add: new_icon_def)
    then show ?thesis using Some c1 pl' f' by simp
  next
    case None
    then obtain j :: CacheIcon where j: "payload s c = Some j"
      and jj: "j1 = j\<lparr>ref_count := ref_count j +
                      (if map_of (icon_cache s) key = Some c then 0 else 1)\<rparr>"
      using c1 j1 by auto
    have "j1\<lparr>ref_count := ref_count j1 + 1, age := 0\<rparr> = j\<lparr>ref_count := ref_count j +
                      (if map_of (icon_cache s) key = Some c then 1 else 2), age := 0\<rparr>"
      using jj by simp
    then show ?thesis using None c1 pl' f' j by simp
  qed
  show ?thesis using run ok' x' f' o' c' by blast
qed

lemma cache_ok_path_factory: "cache_ok path_factory []"
  by (auto simp: cache_ok_def ring_def refs_ok_def table_refs_def payload_def path_factory_def
      plain_icon_def nautilus_icon_factory_instance_init_def nxt_def prv_def get_next.simps
      get_prev.simps split: if_splits)

lemma payload_fields:
  fixes i :: CacheIcon
  assumes "icons s a = Some i"
  shows "map_option ref_count (payload s a) = Some (ref_count i)"
    "map_option pixbuf_ref_count (payload s a) = Some (pixbuf_ref_count i)"
    "map_option mtime (payload s a) = Some (mtime i)"
    "map_option age (payload s a) = Some (age i)"
  using assms by (simp_all add: payload_def)

lemma synthesis_empty_environment [simp]:
  "synthesis empty_environment nm m sz f = None"
  "synthesis_with_retry empty_environment nm m sz f = None"
  by (simp_all add: synthesis_with_retry_def synthesis_def empty_environment_def)

lemma cache_hit_instance_init [simp]:
  "cache_hit e nm key nautilus_icon_factory_instance_init = None"
  by (simp add: cache_hit_def nautilus_icon_factory_instance_init_def)

lemma instance_init_fields [simp]:
  "fallback_icon nautilus_icon_factory_instance_init = 0"
  "next_free nautilus_icon_factory_instance_init = 1"
  "icon_cache nautilus_icon_factory_instance_init = []"
  by (simp_all add: nautilus_icon_factory_instance_init_def)

lemma get_total:
  assumes ok: "cache_ok s xs"
  shows "\<exists>c s'. get_icon_from_cache e (Some nm) m sz f s = Some (Some c, s') \<and>
           (cache_hit e nm \<lparr>name = Some nm, modifier = m, nominal_size = sz,
               force_nominal = f\<rparr> s = None \<and>
            synthesis_with_retry e nm m sz f = None \<longrightarrow> c = fallback_icon s)"
proof (cases "cache_hit e nm \<lparr>name = Some nm, modifier = m, nominal_size = sz,
               force_nominal = f\<rparr> s")
  case None
  from get_miss [OF ok refl None] show ?thesis
    by (auto split: option.splits)
next
  case (Some a)
  from get_hit [OF ok refl Some] show ?thesis using Some by auto
qed

lemma get_stale:
  fixes i :: CacheIcon
  assumes ok: "cache_ok s xs"
    and key: "key = \<lparr>name = Some nm, modifier = m, nominal_size = sz, force_nominal = f\<rparr>"
    and lk: "g_hash_table_lookup (icon_cache s) key = Some a"
    and i: "icons s a = Some i" and st: "stale e nm (mtime i)"
  shows "\<exists>c s'. get_icon_from_cache e (Some nm) m sz f s = Some (Some c, s') \<and>
           g_hash_table_lookup (icon_cache s') key = Some c \<and>
           (case c_stat e nm of
              Some sb \<Rightarrow>
                if st_isreg sb \<and> load_icon_file e nm 0 sz f
                then c = next_free s \<and> c \<noteq> a \<and>
                     map_option mtime (icons s' c) = Some (st_mtime sb)
                else c = fallback_icon s \<and>
                     map_option mtime (icons s' c) = map_option mtime (icons s c)
            | None \<Rightarrow> c = fallback_icon s \<and>
                     map_option mtime (icons s' c) = map_option mtime (icons s c))"
proof -
  have ro: "refs_ok s" using ok by (simp add: cache_ok_def)
  have ab: "is_absolute nm" using st by (simp add: stale_def)
  have miss: "cache_hit e nm key s = None" using lk i st by (simp add: cache_hit_def)
  have sy: "synthesis_with_retry e nm m sz f =
      (case c_stat e nm of
         None \<Rightarrow> None
       | Some sb \<Rightarrow> if st_isreg sb \<and> load_icon_file e nm 0 sz f then Some (st_mtime sb) else None)"
    using ab by (auto simp: synthesis_with_retry_def synthesis_def split: option.splits)
  from get_miss [OF ok key miss] obtain c s' where
    run: "get_icon_from_cache e (Some nm) m sz f s = Some (Some c, s')"
    and t': "icon_cache s' = table_store key c (icon_cache s)"
    and cs: "case synthesis_with_retry e nm m sz f of
              Some mt \<Rightarrow> c = next_free s \<and> next_free s' = next_free s + 1 \<and>
                         payload s' c = Some ((new_icon mt)\<lparr>ref_count := 2\<rparr>)
            | None \<Rightarrow> c = fallback_icon s \<and> next_free s' = next_free s \<and>
                (\<exists>j. payload s c = Some j \<and>
                   payload s' c = Some (j\<lparr>ref_count := ref_count j +
                      (if map_of (icon_cache s) key = Some c then 1 else 2), age := 0\<rparr>))"
    by blast
  have lk': "g_hash_table_lookup (icon_cache s') key = Some c"
    using t' by (simp add: g_hash_table_lookup_map_of map_of_table_store)
  have mt: "\<And>s b. map_option mtime (icons s b) = map_option mtime (payload s b)"
    by (simp add: payload_def option.map_comp comp_def)
  have fresh: "next_free s \<noteq> a" using next_free_fresh [OF ro] i by auto
  have "case synthesis_with_retry e nm m sz f of
          Some t \<Rightarrow> c = next_free s \<and> c \<noteq> a \<and> map_option mtime (icons s' c) = Some t
        | None \<Rightarrow> c = fallback_icon s \<and>
                 map_option mtime (icons s' c) = map_option mtime (icons s c)"
    using cs fresh by (auto simp: mt new_icon_def split: option.splits)
  then show ?thesis using run lk' unfolding sy by (auto split: option.splits if_splits)
qed

subsection \<open>Clearing\<close>

lemma table_refs_delete:
  assumes "icon_cache s' = table_delete k (icon_cache s)" "fallback_icon s' = fallback_icon s"
  shows "table_refs s' b + (if map_of (icon_cache s) k = Some b then 1 else 0) = table_refs s b"
  using count_table_delete [of k "icon_cache s" b] assms by (simp add: table_refs_def)

lemma drop_entry_quiescent:
  assumes ok: "cache_ok s xs" and kv: "map_of (icon_cache s) k = Some v"
    and u: "cache_icon_unref v (s\<lparr>icon_cache := table_delete k (icon_cache s)\<rparr>) = Some s'"
    and q: "quiescent s"
  shows "quiescent s'"
proof -
  from drop_entry_ok [OF ok kv] u obtain jo :: CacheIcon where
    jo: "payload s v = Some jo"
    and pl: "payload s' = (payload s)(v := (if 1 < ref_count jo
              then Some (jo\<lparr>ref_count := ref_count jo - 1\<rparr>) else None))"
    and t: "icon_cache s' = table_delete k (icon_cache s)"
    and fb: "fallback_icon s' = fallback_icon s"
    by auto
  have tr: "\<And>b. table_refs s' b + (if Some v = Some b then 1 else 0) = table_refs s b"
    using table_refs_delete [OF t fb] kv by simp
  show ?thesis
    unfolding quiescent_def
  proof (intro allI impI)
    fix b j' assume bj: "payload s' b = Some j'"
    show "ref_count j' = table_refs s' b"
    proof (cases "b = v")
      case True
      then have "1 < ref_count jo" "j' = jo\<lparr>ref_count := ref_count jo - 1\<rparr>"
        using bj pl by (auto split: if_splits)
      moreover have "ref_count jo = table_refs s v" using q jo by (simp add: quiescent_def)
      ultimately show ?thesis using tr [of v] True by simp
    next
      case False
      then have "payload s b = Some j'" using bj pl by simp
      then have "ref_count j' = table_refs s b" using q by (simp add: quiescent_def)
      then show ?thesis using tr [of b] False by simp
    qed
  qed
qed

lemma clear_loop:
  assumes ok: "cache_ok s xs"
    and func: "\<And>k v s. func k v s = Some (\<not> P k, s)"
  shows "\<exists>s' xs'. foreach_remove func (icon_cache s) s = Some s' \<and> cache_ok s' xs' \<and>
           icon_cache s' = filter (\<lambda>kv. P (fst kv)) (icon_cache s) \<and>
           fallback_icon s' = fallback_icon s \<and> (quiescent s \<longrightarrow> quiescent s')"
proof -
  define I where "I = (\<lambda>s' (kept :: (CacheKey \<times> nat) list). (\<exists>xs'. cache_ok s' xs') \<and>
      filter (\<lambda>kv. P (fst kv)) (icon_cache s') = filter (\<lambda>kv. P (fst kv)) (icon_cache s) \<and>
      filter (\<lambda>kv. P (fst kv)) kept = kept \<and>
      fallback_icon s' = fallback_icon s \<and> (quiescent s \<longrightarrow> quiescent s'))"
  have I0: "I s []" using ok by (auto simp: I_def)
  have t0: "icon_cache s = [] @ icon_cache s" by simp
  have "\<exists>s'. foreach_remove func (icon_cache s) s = Some s' \<and> I s' (icon_cache s')"
  proof (rule foreach_remove_rule [of I, OF I0 t0])
    fix s1 kept k v rest'
    assume i1: "I s1 kept" and t1: "icon_cache s1 = kept @ (k, v) # rest'"
    obtain xs1 where ok1: "cache_ok s1 xs1" using i1 by (auto simp: I_def)
    have d: "distinct (map fst (icon_cache s1))"
      using ok1 refs_okD(5) by (simp add: cache_ok_def)
    show "\<exists>b s2. func k v s1 = Some (b, s2) \<and>
          (if b then \<exists>s3. cache_icon_unref v (s2\<lparr>icon_cache := table_delete k (icon_cache s2)\<rparr>)
                        = Some s3 \<and> I s3 kept \<and> icon_cache s3 = kept @ rest'
           else I s2 (kept @ [(k, v)]) \<and> icon_cache s2 = kept @ (k, v) # rest')"
    proof (cases "P k")
      case True
      then have "I s1 (kept @ [(k, v)])" using i1 by (simp add: I_def)
      then show ?thesis using func [of k v s1] True t1
        by (intro exI [of _ False] exI [of _ s1]) simp
    next
      case False
      have kv: "map_of (icon_cache s1) k = Some v" using map_of_middle d t1 by metis
      from drop_entry_ok [OF ok1 kv] obtain s3 xs3 where
        u: "cache_icon_unref v (s1\<lparr>icon_cache := table_delete k (icon_cache s1)\<rparr>) = Some s3"
        and ok3: "cache_ok s3 xs3"
        and t3: "icon_cache s3 = table_delete k (icon_cache s1)"
        and fb3: "fallback_icon s3 = fallback_icon s1"
        by blast
      have t3': "icon_cache s3 = kept @ rest'" using t3 t1 d table_delete_middle by metis
      have "filter (\<lambda>kv. P (fst kv)) (icon_cache s3) = filter (\<lambda>kv. P (fst kv)) (icon_cache s1)"
        using t3' t1 False by simp
      moreover have "quiescent s1 \<Longrightarrow> quiescent s3"
        using drop_entry_quiescent [OF ok1 kv u] .
      ultimately have "I s3 kept" using i1 ok3 fb3 by (auto simp: I_def)
      then show ?thesis using func [of k v s1] False u t3'
        by (intro exI [of _ True] exI [of _ s1]) simp
    qed
  qed
  then obtain s' where f: "foreach_remove func (icon_cache s) s = Some s'"
    and i: "I s' (icon_cache s')" by blast
  then show ?thesis by (auto simp: I_def)
qed

lemma remove_non_pathnames_eq: "remove_non_pathnames k v s = Some (\<not> names_path k, s)"
  by (auto simp: remove_non_pathnames_def names_path_def split: option.splits list.splits)

lemma quiescent_empty_table:
  assumes ok: "cache_ok s xs" and q: "quiescent s" and t: "icon_cache s = []"
  shows "xs = [] \<or> xs = [fallback_icon s]"
proof -
  have ro: "refs_ok s" and r: "ring {} s xs" using ok by (simp_all add: cache_ok_def)
  have "set xs \<subseteq> {fallback_icon s}"
  proof
    fix a assume "a \<in> set xs"
    then have "icons s a \<noteq> None" using r by (auto simp: ring_def)
    then obtain j where j: "payload s a = Some j" by (auto simp: payload_def)
    then have "ref_count j = table_refs s a" "1 \<le> ref_count j"
      using q refs_okD(2) [OF ro j] by (simp_all add: quiescent_def)
    then show "a \<in> {fallback_icon s}" using t by (auto simp: table_refs_def split: if_splits)
  qed
  moreover have "distinct xs" using r by (simp add: ring_def)
  ultimately show ?thesis
  proof (cases xs)
    case Nil
    then show ?thesis by simp
  next
    case (Cons a ys)
    assume sub: "set xs \<subseteq> {fallback_icon s}" and dx: "distinct xs"
    have a: "a = fallback_icon s" using sub Cons by simp
    have "ys = []"
    proof (cases ys)
      case Nil
      then show ?thesis .
    next
      case (Cons b zs)
      then have "b = fallback_icon s" using sub \<open>xs = a # ys\<close> by simp
      then show ?thesis using dx a Cons \<open>xs = a # ys\<close> by simp
    qed
    then show ?thesis using a Cons by simp
  qed
qed

lemma clear_ok:
  assumes ok: "cache_ok s xs"
  shows "\<exists>s' xs'. nautilus_icon_factory_clear False s = Some s' \<and> cache_ok s' xs' \<and>
           icon_cache s' = filter (\<lambda>kv. names_path (fst kv)) (icon_cache s)"
    and "quiescent s \<Longrightarrow>
         \<exists>s' xs'. nautilus_icon_factory_clear True s = Some s' \<and> cache_ok s' xs' \<and>
           icon_cache s' = [] \<and> (xs' = [] \<or> xs' = [fallback_icon s'])"
proof -
  from clear_loop [OF ok, of remove_non_pathnames names_path, OF remove_non_pathnames_eq]
  show "\<exists>s' xs'. nautilus_icon_factory_clear False s = Some s' \<and> cache_ok s' xs' \<and>
           icon_cache s' = filter (\<lambda>kv. names_path (fst kv)) (icon_cache s)"
    by (auto simp: nautilus_icon_factory_clear_def g_hash_table_foreach_remove_def)
next
  assume q: "quiescent s"
  have ra: "\<And>k v s. remove_all k v s = Some (\<not> (\<lambda>k. False) k, s)" by (simp add: remove_all_def)
  from clear_loop [OF ok, of remove_all "\<lambda>k. False", OF ra] q obtain s1 xs1 where
    f: "foreach_remove remove_all (icon_cache s) s = Some s1" and ok1: "cache_ok s1 xs1"
    and t1: "icon_cache s1 = []" and q1: "quiescent s1"
    by auto
  have x1: "xs1 = [] \<or> xs1 = [fallback_icon s1]" using quiescent_empty_table [OF ok1 q1 t1] .
  have n1: "recently_used_count s1 = length xs1" and r1: "ring {} s1 xs1"
    using ok1 by (simp_all add: cache_ok_def)
  have hd: "c_next (recently_used_dummy_head s1) = nxt s1 Head"
    "c_prev (recently_used_dummy_head s1) = prv s1 Head"
    by (simp_all add: nxt_def prv_def get_next.simps get_prev.simps)
  have "nautilus_icon_factory_clear True s = Some s1"
  proof (cases "xs1 = []")
    case True
    then show ?thesis using f n1
      by (simp add: nautilus_icon_factory_clear_def g_hash_table_foreach_remove_def)
  next
    case False
    then have x: "xs1 = [fallback_icon s1]" using x1 by simp
    then have "nxt s1 Head = Node (fallback_icon s1)" "prv s1 Head = Node (fallback_icon s1)"
      using r1 by (simp_all add: ring_def)
    then show ?thesis using f n1 x hd
      by (simp add: nautilus_icon_factory_clear_def g_hash_table_foreach_remove_def)
  qed
  then show "\<exists>s' xs'. nautilus_icon_factory_clear True s = Some s' \<and> cache_ok s' xs' \<and>
           icon_cache s' = [] \<and> (xs' = [] \<or> xs' = [fallback_icon s'])"
    using ok1 t1 x1 by blast
qed

lemma cache_ok_two_entry_factory: "cache_ok two_entry_factory []"
  by (auto simp: cache_ok_def ring_def refs_ok_def table_refs_def payload_def
      two_entry_factory_def plain_icon_def nautilus_icon_factory_instance_init_def nxt_def
      prv_def get_next.simps get_prev.simps folder_key_def path_key_def split: if_splits)

lemma quiescent_two_entry_factory: "quiescent two_entry_factory"
  by (auto simp: quiescent_def table_refs_def payload_def two_entry_factory_def plain_icon_def
      nautilus_icon_factory_instance_init_def strip_def split: if_splits)

subsection \<open>Successive lookups of new keys\<close>













subsection \<open>The hash of a key\<close>

lemma xor_cancel_left: "(x XOR y = x XOR z) \<longleftrightarrow> y = z" for x y z :: "32 word"
  by (metis bit.xor_left_self)

lemma push_bit_4_eq:
  "push_bit 4 x = push_bit 4 y \<longleftrightarrow> take_bit 28 x = take_bit 28 y" for x y :: "32 word"
proof
  assume e: "push_bit 4 x = push_bit 4 y"
  show "take_bit 28 x = take_bit 28 y"
  proof (rule bit_eqI)
    fix n
    have "bit (push_bit 4 x) (n + 4) = bit (push_bit 4 y) (n + 4)" using e by simp
    then show "bit (take_bit 28 x) n \<longleftrightarrow> bit (take_bit 28 y) n"
      by (auto simp: bit_take_bit_iff bit_push_bit_iff)
  qed
next
  assume e: "take_bit 28 x = take_bit 28 y"
  show "push_bit 4 x = push_bit 4 y"
  proof (rule bit_eqI)
    fix n
    have "bit (take_bit 28 x) (n - 4) = bit (take_bit 28 y) (n - 4)" using e by simp
    then show "bit (push_bit 4 x) n \<longleftrightarrow> bit (push_bit 4 y) n"
      by (auto simp: bit_take_bit_iff bit_push_bit_iff)
  qed
qed

lemma shifted_size_plus_flag:
  "push_bit 4 x + of_bool p = push_bit 4 y + of_bool q \<longleftrightarrow>
     p = q \<and> take_bit 28 x = take_bit 28 y" for x y :: "32 word"
proof -
  have ev: "even (push_bit 4 z + of_bool r) \<longleftrightarrow> \<not> r" for z :: "32 word" and r
    by (cases r) (simp_all add: even_push_bit_iff)
  show ?thesis
  proof (cases "p = q")
    case True
    then show ?thesis by (simp add: push_bit_4_eq)
  next
    case False
    then have "even (push_bit 4 x + of_bool p) \<noteq> even (push_bit 4 y + of_bool q)"
      by (simp only: ev) simp
    then have "push_bit 4 x + of_bool p \<noteq> push_bit 4 y + of_bool q" by metis
    then show ?thesis using False by simp
  qed
qed


lemma cache_key_hash_value:
  "name k = Some n \<Longrightarrow>
   cache_key_hash g k =
     Some (g n XOR (push_bit 4 (nominal_size k) + of_bool (force_nominal k)) XOR
           (case modifier k of None \<Rightarrow> 0 | Some m \<Rightarrow> g m))"
  by (simp add: cache_key_hash_def Let_def xor.assoc split: option.splits)

lemma xor_cancel_right: "(y XOR x = z XOR x) \<longleftrightarrow> y = z" for x y z :: "32 word"
  using xor_cancel_left [of x y z] by (simp add: xor.commute)

section \<open>The claims\<close>

text \<open>
  C1. The specification lets the sweep evict an entry only when its age, incremented by
  the same pass, exceeds \<open>ICON_MAX_AGE\<close>, and has a younger entry skipped. The predicate
  of the sweep compares the age with the threshold and then answers \<^verbatim>\<open>TRUE\<close> on
  both branches: the entry of \<open>one_entry_factory\<close>, whose age is 0 before the pass and 1
  after the increment, is removed from the table and freed.
\<close>

theorem sweep_evicts_entry_of_age_one:
  "map_option age (icons (one_entry_factory False) 1) = Some 0 \<and>
   nautilus_icon_factory_possibly_free_cached_icon (folder_key False) 1 (one_entry_factory False)
     = Some (True, (one_entry_factory False)
         \<lparr>icons := (icons (one_entry_factory False))(1 \<mapsto> plain_icon\<lparr>age := 1\<rparr>)\<rparr>) \<and>
   map_option icon_cache (nautilus_icon_factory_sweep (one_entry_factory False)) = Some [] \<and>
   map_option (\<lambda>s. icons s 1) (nautilus_icon_factory_sweep (one_entry_factory False)) = Some None"
  by (simp add: nautilus_icon_factory_sweep_def g_hash_table_foreach_remove_def
      nautilus_icon_factory_possibly_free_cached_icon_def one_entry_factory_def
      nautilus_icon_factory_instance_init_def plain_icon_def folder_key_def
      cache_icon_unref_def cache_key_equal_eq ICON_MAX_AGE_def Let_def get_next.simps)

text \<open>
  C2. The specification defers the destruction of an entry whose reference count reaches
  zero while it is in the recently-used list. \<^verbatim>\<open>cache_icon_unref\<close> never defers:
  the entry of \<open>listed_factory\<close> is in the list with one reference, and the call that
  drops this reference takes the node out of the list and frees the icon.
\<close>

theorem cache_icon_unref_frees_listed_entry:
  "map_option (\<lambda>i. (ref_count i, c_next (recently_used_node i))) (icons listed_factory 1)
     = Some (1, Head) \<and>
   map_option (\<lambda>s. (icons s 1, recently_used_dummy_head s, recently_used_count s))
     (cache_icon_unref 1 listed_factory)
     = Some (None, \<lparr>c_next = Head, c_prev = Head\<rparr>, 0)"
  by (simp add: cache_icon_unref_def listed_factory_def listed_icon_def plain_icon_def
      nautilus_icon_factory_instance_init_def unlink_in_place_def guint_dec_def
      get_next.simps get_prev.simps set_next.simps set_prev.simps)

text \<open>
  C2, as the program has it: a release that leaves references only decrements the count,
  and the list stays as it is; the release of the last reference frees the icon at once,
  whether or not it is in the recently-used list, after taking its node out of the list
  (the list then holds the other nodes in their order, and its count matches). So an
  icon is freed exactly when its reference count reaches zero, and no freed icon is left
  in the list.
\<close>

theorem cache_icon_unref_frees_at_zero:
  fixes i :: CacheIcon
  assumes "ring {} s xs" and "recently_used_count s = length xs"
    and "icons s a = Some i" and "1 \<le> ref_count i"
  shows "\<exists>s'. cache_icon_unref a s = Some s' \<and>
           (if 1 < ref_count i
            then map_option ref_count (icons s' a) = Some (ref_count i - 1) \<and>
                 ring {} s' xs \<and> recently_used_count s' = length xs
            else icons s' a = None \<and>
                 ring {} s' (remove1 a xs) \<and> recently_used_count s' = length (remove1 a xs))"
proof -
  from cache_icon_unref_ring [OF assms] obtain s' where
    run: "cache_icon_unref a s = Some s'"
    and pl: "payload s' = (payload s)(a := (if 1 < ref_count i
              then Some (strip (i\<lparr>ref_count := ref_count i - 1\<rparr>)) else None))"
    and r: "ring {} s' (if 1 < ref_count i then xs else remove1 a xs)"
    and n: "recently_used_count s' = length (if 1 < ref_count i then xs else remove1 a xs)"
    by blast
  have "map_option ref_count (icons s' a) = map_option ref_count (payload s' a)"
    by (simp add: payload_def option.map_comp comp_def)
  moreover have "(icons s' a = None) = (payload s' a = None)" by (simp add: payload_None)
  ultimately show ?thesis using run pl r n by (auto split: if_splits)
qed

theorem cache_icon_unref_frees_at_zero_witness:
  "\<exists>s'. cache_icon_unref 1 listed_factory = Some s' \<and> icons s' 1 = None \<and>
         ring {} s' [] \<and> recently_used_count s' = 0"
  using cache_icon_unref_frees_at_zero [OF ring_listed_factory, of 1 listed_icon]
  by (simp add: listed_factory_def listed_icon_def plain_icon_def)

text \<open>
  C3. An entry whose icon is in the recently-used list when the sweep runs (the
  \<^verbatim>\<open>next\<close> pointer of its node is not \<^verbatim>\<open>NULL\<close>) is still in the table after
  the sweep, under the same key, and its icon is still live and in the list, whatever its
  age and the reference count of its pixbuf.
\<close>

theorem sweep_keeps_recently_used:
  fixes i :: CacheIcon
  assumes ok: "cache_ok s xs"
    and k: "g_hash_table_lookup (icon_cache s) k = Some a"
    and i: "icons s a = Some i" and n: "c_next (recently_used_node i) \<noteq> Null"
  shows "\<exists>s' i'. nautilus_icon_factory_sweep s = Some s' \<and>
           g_hash_table_lookup (icon_cache s') k = Some a \<and>
           icons s' a = Some i' \<and> c_next (recently_used_node i') \<noteq> Null"
proof -
  have r: "ring {} s xs" using ok by (simp add: cache_ok_def)
  have ax: "a \<in> set xs" using in_list_iff [OF r i] n by simp
  from sweep_ok [OF ok] obtain s' where
    run: "nautilus_icon_factory_sweep s = Some s'" and ok': "cache_ok s' xs"
    and keep: "\<forall>k a. a \<in> set xs \<and> map_of (icon_cache s) k = Some a \<longrightarrow>
                  map_of (icon_cache s') k = Some a"
    by blast
  have r': "ring {} s' xs" using ok' by (simp add: cache_ok_def)
  then obtain i' where i': "icons s' a = Some i'" using ax by (auto simp: ring_def)
  have "c_next (recently_used_node i') \<noteq> Null" using in_list_iff [OF r' i'] ax by simp
  moreover have "g_hash_table_lookup (icon_cache s') k = Some a"
    using keep ax k by (simp add: g_hash_table_lookup_map_of)
  ultimately show ?thesis using run i' by blast
qed

theorem sweep_keeps_recently_used_witness:
  "\<exists>s' i'. nautilus_icon_factory_sweep listed_factory = Some s' \<and>
     g_hash_table_lookup (icon_cache s') (folder_key False) = Some 1 \<and>
     icons s' 1 = Some i' \<and> c_next (recently_used_node i') \<noteq> Null"
  using sweep_keeps_recently_used [OF cache_ok_listed_factory, of "folder_key False" 1 listed_icon]
  by (simp add: listed_factory_def listed_icon_def plain_icon_def cache_key_equal_eq)

text \<open>
  C4. A lookup that misses the cache (no entry, or a stale one) and whose synthesis with
  the modifier fails tries once more without the modifier: when that succeeds the result
  is the new icon; when it fails too the function returns the fallback icon, which
  existed before, with more references than it had and its pixbuf and modification
  time untouched, and nothing is allocated. In both cases the call runs to its end with a
  result that is not \<^verbatim>\<open>NULL\<close>, and the table maps the key of the four arguments,
  modifier included, to the returned icon.
\<close>

theorem get_falls_back_after_retry:
  assumes ok: "cache_ok s xs"
    and key: "key = \<lparr>name = Some nm, modifier = Some md, nominal_size = sz, force_nominal = f\<rparr>"
    and miss: "cache_hit e nm key s = None"
    and fail: "synthesis e nm (Some md) sz f = None"
  shows "\<exists>c s'. get_icon_from_cache e (Some nm) (Some md) sz f s = Some (Some c, s') \<and>
           g_hash_table_lookup (icon_cache s') key = Some c \<and>
           fallback_icon s' = fallback_icon s \<and>
           (case synthesis e nm None sz f of
              Some mt \<Rightarrow> c = next_free s \<and> icons s c = None \<and>
                 map_option mtime (icons s' c) = Some mt
            | None \<Rightarrow> c = fallback_icon s \<and> next_free s' = next_free s \<and>
                 (\<exists>i i'. icons s c = Some i \<and> icons s' c = Some i' \<and>
                    ref_count i < ref_count i' \<and>
                    pixbuf_ref_count i' = pixbuf_ref_count i \<and> mtime i' = mtime i))"
proof -
  have ro: "refs_ok s" using ok by (simp add: cache_ok_def)
  have sr: "synthesis_with_retry e nm (Some md) sz f = synthesis e nm None sz f"
    using fail by (simp add: synthesis_with_retry_def)
  from get_miss [OF ok key miss] obtain c s' where
    run: "get_icon_from_cache e (Some nm) (Some md) sz f s = Some (Some c, s')"
    and t': "icon_cache s' = table_store key c (icon_cache s)"
    and fb: "fallback_icon s' = fallback_icon s"
    and cs: "case synthesis e nm None sz f of
              Some mt \<Rightarrow> c = next_free s \<and> next_free s' = next_free s + 1 \<and>
                         payload s' c = Some ((new_icon mt)\<lparr>ref_count := 2\<rparr>)
            | None \<Rightarrow> c = fallback_icon s \<and> next_free s' = next_free s \<and>
                (\<exists>j. payload s c = Some j \<and>
                   payload s' c = Some (j\<lparr>ref_count := ref_count j +
                      (if map_of (icon_cache s) key = Some c then 1 else 2), age := 0\<rparr>))"
    unfolding sr by blast
  have lk: "g_hash_table_lookup (icon_cache s') key = Some c"
    using t' by (simp add: g_hash_table_lookup_map_of map_of_table_store)
  have "case synthesis e nm None sz f of
              Some mt \<Rightarrow> c = next_free s \<and> icons s c = None \<and>
                 map_option mtime (icons s' c) = Some mt
            | None \<Rightarrow> c = fallback_icon s \<and> next_free s' = next_free s \<and>
                 (\<exists>i i'. icons s c = Some i \<and> icons s' c = Some i' \<and>
                    ref_count i < ref_count i' \<and>
                    pixbuf_ref_count i' = pixbuf_ref_count i \<and> mtime i' = mtime i)"
  proof (cases "synthesis e nm None sz f")
    case (Some mt)
    then have c: "c = next_free s" and p: "payload s' c = Some ((new_icon mt)\<lparr>ref_count := 2\<rparr>)"
      using cs by auto
    obtain i' where i': "icons s' c = Some i'" and e': "(new_icon mt)\<lparr>ref_count := 2\<rparr> = strip i'"
      using payload_SomeD [OF p] by blast
    have "mtime (strip i') = mt" using e' [symmetric] by (simp add: new_icon_def)
    then have "map_option mtime (icons s' c) = Some mt" using i' by simp
    then show ?thesis using Some c next_free_fresh [OF ro] by simp
  next
    case None
    then obtain j :: CacheIcon where c: "c = fallback_icon s" and nf: "next_free s' = next_free s"
      and j: "payload s c = Some j"
      and j': "payload s' c = Some (j\<lparr>ref_count := ref_count j +
                      (if map_of (icon_cache s) key = Some c then 1 else 2), age := 0\<rparr>)"
      using cs by auto
    obtain i where i: "icons s c = Some i" and ji: "j = strip i" using payload_SomeD [OF j] by blast
    obtain i' where i': "icons s' c = Some i'"
      and ji': "j\<lparr>ref_count := ref_count j +
                      (if map_of (icon_cache s) key = Some c then 1 else 2), age := 0\<rparr> = strip i'"
      using payload_SomeD [OF j'] by blast
    have "ref_count (strip i') = ref_count j + (if map_of (icon_cache s) key = Some c then 1 else 2)"
      "pixbuf_ref_count (strip i') = pixbuf_ref_count j" "mtime (strip i') = mtime j"
      using ji' [symmetric] by simp_all
    then have "ref_count i < ref_count i'" "pixbuf_ref_count i' = pixbuf_ref_count i"
      "mtime i' = mtime i"
      using ji by (simp_all split: if_splits)
    then show ?thesis using None c nf i i' by simp
  qed
  then show ?thesis using run lk fb by blast
qed

theorem get_falls_back_after_retry_witness:
  "\<exists>s' i'. get_icon_from_cache empty_environment (Some ''folder'') (Some ''open'') 48 False
       nautilus_icon_factory_instance_init = Some (Some 0, s') \<and>
     g_hash_table_lookup (icon_cache s')
       \<lparr>name = Some ''folder'', modifier = Some ''open'', nominal_size = 48,
        force_nominal = False\<rparr> = Some 0 \<and>
     next_free s' = 1 \<and> icons s' 0 = Some i' \<and> 1 < ref_count i'"
proof -
  have h: "cache_hit empty_environment ''folder''
      \<lparr>name = Some ''folder'', modifier = Some ''open'', nominal_size = 48,
       force_nominal = False\<rparr> nautilus_icon_factory_instance_init = None"
    by simp
  have f: "synthesis empty_environment ''folder'' (Some ''open'') 48 False = None" by simp
  have i: "icons nautilus_icon_factory_instance_init 0 =
      Some \<lparr>ref_count = 1, pixbuf_ref_count = 1, mtime = 0,
         recently_used_node = \<lparr>c_next = Null, c_prev = Null\<rparr>, age = 0\<rparr>"
    by (simp add: nautilus_icon_factory_instance_init_def)
  from get_falls_back_after_retry [OF cache_ok_instance_init refl h f]
  show ?thesis using i by auto
qed

text \<open>
  C5. The specification has the lookup return a null result exactly for a name that is
  null or empty. \<^verbatim>\<open>get_icon_from_cache\<close> guards against the null name only
  (\<^verbatim>\<open>g_return_val_if_fail (icon != NULL, NULL)\<close>): the empty name is looked up like
  any other, and where nothing can be found the result is the fallback icon.
\<close>

theorem get_empty_name_not_null:
  "\<exists>s'. get_icon_from_cache empty_environment (Some []) None 48 False
          nautilus_icon_factory_instance_init = Some (Some 0, s')"
  using get_total [OF cache_ok_instance_init, of empty_environment "[]" None 48 False]
  by auto

text \<open>
  C5, as the program has it: on a well-formed memory the lookup runs to its end for every
  argument, no assertion fails, and its result is \<^verbatim>\<open>NULL\<close> exactly when the name
  is \<^verbatim>\<open>NULL\<close>; for every other name, the empty one and names that are missing or
  cannot be rendered included, the result is an icon, and it is the fallback icon when
  the cache has no usable entry and synthesis fails.
\<close>

theorem get_null_iff_name_null:
  assumes ok: "cache_ok s xs"
  shows "\<exists>r s'. get_icon_from_cache e icon m sz f s = Some (r, s') \<and>
           (r = None \<longleftrightarrow> icon = None) \<and>
           (\<forall>nm. icon = Some nm \<and>
              cache_hit e nm \<lparr>name = Some nm, modifier = m, nominal_size = sz,
                 force_nominal = f\<rparr> s = None \<and>
              synthesis_with_retry e nm m sz f = None \<longrightarrow> r = Some (fallback_icon s))"
proof (cases icon)
  case None
  then show ?thesis by (simp add: get_icon_from_cache_def)
next
  case (Some nm)
  from get_total [OF ok, of e nm m sz f] show ?thesis using Some by auto
qed

theorem get_null_iff_name_null_witness:
  "(\<exists>s'. get_icon_from_cache empty_environment (Some ''no-such-icon'') None 48 False
           nautilus_icon_factory_instance_init = Some (Some 0, s')) \<and>
   (\<exists>s'. get_icon_from_cache empty_environment None None 48 False
           nautilus_icon_factory_instance_init = Some (None, s'))"
  using get_null_iff_name_null [OF cache_ok_instance_init, of empty_environment
      "Some ''no-such-icon''" None 48 False]
    get_null_iff_name_null [OF cache_ok_instance_init, of empty_environment
      None None 48 False]
  by auto

text \<open>
  C6. Two keys compare equal exactly when their four fields are equal: the names and the
  modifiers byte for byte, two absent modifiers being equal, the sizes and the two
  \<open>force_nominal\<close> flags. \<^verbatim>\<open>cache_key_hash\<close> has a value exactly for a key with a
  name, and two keys that compare equal have the same hash. The hash is computed from
  all four fields, whatever function hashes the strings: between two keys with names
  that agree in the other three fields, the hashes are equal exactly when the hashes of
  the two names are equal; exactly when the flags and the low 28 bits of the sizes are
  equal (the size enters a 32-bit word shifted left by four bits, the flag is added to
  it); and exactly when the hashes of the two modifiers are equal, an absent modifier
  counting as 0.
\<close>

theorem cache_key_equal_fields_hash:
  fixes a b :: CacheKey and g_str_hash :: "string \<Rightarrow> 32 word"
  shows
  "(cache_key_equal a b \<longleftrightarrow>
      name a = name b \<and> modifier a = modifier b \<and>
      nominal_size a = nominal_size b \<and> force_nominal a = force_nominal b) \<and>
   (cache_key_hash g_str_hash a \<noteq> None \<longleftrightarrow> name a \<noteq> None) \<and>
   (name a \<noteq> None \<and> cache_key_equal a b \<longrightarrow>
      (\<exists>h. cache_key_hash g_str_hash a = Some h \<and> cache_key_hash g_str_hash b = Some h)) \<and>
   (\<forall>na nb. name a = Some na \<and> name b = Some nb \<longrightarrow>
      (modifier a = modifier b \<and> nominal_size a = nominal_size b \<and>
       force_nominal a = force_nominal b \<longrightarrow>
         (cache_key_hash g_str_hash a = cache_key_hash g_str_hash b \<longleftrightarrow>
            g_str_hash na = g_str_hash nb)) \<and>
      (na = nb \<and> modifier a = modifier b \<longrightarrow>
         (cache_key_hash g_str_hash a = cache_key_hash g_str_hash b \<longleftrightarrow>
            force_nominal a = force_nominal b \<and>
            take_bit 28 (nominal_size a) = take_bit 28 (nominal_size b))) \<and>
      (na = nb \<and> nominal_size a = nominal_size b \<and> force_nominal a = force_nominal b \<longrightarrow>
         (cache_key_hash g_str_hash a = cache_key_hash g_str_hash b \<longleftrightarrow>
            (case modifier a of None \<Rightarrow> 0 | Some m \<Rightarrow> g_str_hash m) =
            (case modifier b of None \<Rightarrow> 0 | Some m \<Rightarrow> g_str_hash m))))"
proof (intro conjI allI impI)
  show "cache_key_equal a b \<longleftrightarrow>
      name a = name b \<and> modifier a = modifier b \<and>
      nominal_size a = nominal_size b \<and> force_nominal a = force_nominal b"
    by (auto simp: cache_key_equal_def eel_strcmp_zero_iff)
  show "cache_key_hash g_str_hash a \<noteq> None \<longleftrightarrow> name a \<noteq> None"
    by (simp add: cache_key_hash_def Let_def split: option.splits)
next
  assume h: "name a \<noteq> None \<and> cache_key_equal a b"
  then have ba: "b = a" by (simp only: cache_key_equal_eq)
  from h obtain n where "name a = Some n" by blast
  then have "cache_key_hash g_str_hash a \<noteq> None" by (simp only: cache_key_hash_value) simp
  then show "\<exists>h. cache_key_hash g_str_hash a = Some h \<and> cache_key_hash g_str_hash b = Some h"
    unfolding ba by blast
next
  fix na nb
  assume n: "name a = Some na \<and> name b = Some nb"
  assume "modifier a = modifier b \<and> nominal_size a = nominal_size b \<and>
       force_nominal a = force_nominal b"
  then show "cache_key_hash g_str_hash a = cache_key_hash g_str_hash b \<longleftrightarrow>
            g_str_hash na = g_str_hash nb"
    using n by (simp add: cache_key_hash_value xor_cancel_right)
next
  fix na nb
  assume n: "name a = Some na \<and> name b = Some nb"
  assume "na = nb \<and> modifier a = modifier b"
  then show "cache_key_hash g_str_hash a = cache_key_hash g_str_hash b \<longleftrightarrow>
            force_nominal a = force_nominal b \<and>
            take_bit 28 (nominal_size a) = take_bit 28 (nominal_size b)"
    using n by (simp add: cache_key_hash_value xor_cancel_left xor_cancel_right
        shifted_size_plus_flag)
next
  fix na nb
  assume n: "name a = Some na \<and> name b = Some nb"
  assume "na = nb \<and> nominal_size a = nominal_size b \<and> force_nominal a = force_nominal b"
  then show "cache_key_hash g_str_hash a = cache_key_hash g_str_hash b \<longleftrightarrow>
            (case modifier a of None \<Rightarrow> 0 | Some m \<Rightarrow> g_str_hash m) =
            (case modifier b of None \<Rightarrow> 0 | Some m \<Rightarrow> g_str_hash m)"
    using n by (simp add: cache_key_hash_value xor_cancel_left)
qed


theorem cache_key_equal_fields_hash_witness:
  "cache_key_equal (folder_key True) (folder_key True) \<and>
   \<not> cache_key_equal (folder_key True) (folder_key False) \<and>
   (\<exists>h. cache_key_hash (\<lambda>s. of_nat (length s)) (folder_key True) = Some h) \<and>
   cache_key_hash (\<lambda>s. of_nat (length s)) (folder_key True)
     \<noteq> cache_key_hash (\<lambda>s. of_nat (length s)) (folder_key False)"
  using cache_key_equal_fields_hash [of "folder_key True" "folder_key True" "\<lambda>s. of_nat (length s)"]
    cache_key_equal_fields_hash [of "folder_key True" "folder_key False" "\<lambda>s. of_nat (length s)"]
  by (simp add: folder_key_def)





text \<open>
  C8. The specification has a lookup that finds a stale entry for a path return an entry
  that carries the new modification time of the file. In \<open>path_factory\<close> the entry for
  \<open>/a\<close> was loaded at modification time 5; the file now has modification time 7 and
  cannot be loaded. The lookup drops the entry, fails to load the file and returns the
  fallback icon, whose modification time is 0.
\<close>

theorem get_stale_unloadable_returns_fallback:
  "\<exists>s'. get_icon_from_cache unloadable_file_environment (Some ''/a'') None 48 False path_factory
          = Some (Some 0, s') \<and>
     map_option mtime (icons s' 0) = Some 0 \<and>
     map_option st_mtime (c_stat unloadable_file_environment ''/a'') = Some 7 \<and>
     g_hash_table_lookup (icon_cache path_factory) path_key = Some 1 \<and>
     map_option mtime (icons path_factory 1) = Some 5"
proof -
  have lk: "g_hash_table_lookup (icon_cache path_factory) path_key = Some 1"
    by (simp add: path_factory_def cache_key_equal_eq)
  have i: "icons path_factory 1 = Some (plain_icon\<lparr>mtime := 5\<rparr>)"
    by (simp add: path_factory_def)
  have st: "stale unloadable_file_environment ''/a'' (mtime (plain_icon\<lparr>mtime := 5\<rparr>))"
    by (simp add: stale_def is_absolute_def unloadable_file_environment_def)
  have k: "path_key = \<lparr>name = Some ''/a'', modifier = None, nominal_size = 48,
      force_nominal = False\<rparr>" by (simp add: path_key_def)
  from get_stale [OF cache_ok_path_factory k lk i st]
  show ?thesis using lk i
    by (auto simp: unloadable_file_environment_def empty_environment_def path_factory_def
        nautilus_icon_factory_instance_init_def)
qed

text \<open>
  C8, as the program has it: when the table has an entry for an absolute path and the
  path no longer exists, is not a regular file, or has another modification time than
  the one stored in the entry, the lookup treats the entry as missing and tries to load
  the file again. When the path is a regular file that loads, the result is a new icon
  with the current modification time of the file; otherwise the result is the fallback
  icon, whose modification time is what it was. The table maps the key to the result.
\<close>

theorem get_reloads_stale_path:
  fixes i :: CacheIcon
  assumes ok: "cache_ok s xs"
    and key: "key = \<lparr>name = Some nm, modifier = m, nominal_size = sz, force_nominal = f\<rparr>"
    and lk: "g_hash_table_lookup (icon_cache s) key = Some a"
    and i: "icons s a = Some i" and st: "stale e nm (mtime i)"
  shows "\<exists>c s'. get_icon_from_cache e (Some nm) m sz f s = Some (Some c, s') \<and>
           g_hash_table_lookup (icon_cache s') key = Some c \<and>
           (case c_stat e nm of
              Some sb \<Rightarrow>
                if st_isreg sb \<and> load_icon_file e nm 0 sz f
                then c = next_free s \<and> c \<noteq> a \<and>
                     map_option mtime (icons s' c) = Some (st_mtime sb)
                else c = fallback_icon s \<and>
                     map_option mtime (icons s' c) = map_option mtime (icons s c)
            | None \<Rightarrow> c = fallback_icon s \<and>
                     map_option mtime (icons s' c) = map_option mtime (icons s c))"
  using get_stale [OF assms] .

theorem get_reloads_stale_path_witness:
  "\<exists>s'. get_icon_from_cache image_file_environment (Some ''/a'') None 48 False path_factory
          = Some (Some 2, s') \<and>
     g_hash_table_lookup (icon_cache s') path_key = Some 2 \<and>
     map_option mtime (icons s' 2) = Some 7"
proof -
  have lk: "g_hash_table_lookup (icon_cache path_factory) path_key = Some 1"
    by (simp add: path_factory_def cache_key_equal_eq)
  have i: "icons path_factory 1 = Some (plain_icon\<lparr>mtime := 5\<rparr>)"
    by (simp add: path_factory_def)
  have st: "stale image_file_environment ''/a'' (mtime (plain_icon\<lparr>mtime := 5\<rparr>))"
    by (simp add: stale_def is_absolute_def image_file_environment_def)
  have k: "path_key = \<lparr>name = Some ''/a'', modifier = None, nominal_size = 48,
      force_nominal = False\<rparr>" by (simp add: path_key_def)
  from get_reloads_stale_path [OF cache_ok_path_factory k lk i st]
  show ?thesis
    by (auto simp: image_file_environment_def path_factory_def)
qed

text \<open>
  C9. \<^verbatim>\<open>nautilus_icon_factory_clear\<close> with \<^verbatim>\<open>clear_pathnames\<close> false (path
  entries are kept) leaves in the table exactly the entries whose key names a path, in
  their order; with \<^verbatim>\<open>clear_pathnames\<close> true it empties the table, and, when no
  caller holds a reference to an icon, its assertions hold and the recently-used list is
  then empty or holds the node of the fallback icon alone. Both calls run to their end
  on a well-formed memory and leave it well formed.
\<close>

theorem clear_removes_expected:
  assumes ok: "cache_ok s xs"
  shows "(\<exists>s' xs'. nautilus_icon_factory_clear False s = Some s' \<and> cache_ok s' xs' \<and>
            icon_cache s' = filter (\<lambda>(k, v). names_path k) (icon_cache s)) \<and>
         (quiescent s \<longrightarrow>
            (\<exists>s' xs'. nautilus_icon_factory_clear True s = Some s' \<and> cache_ok s' xs' \<and>
               icon_cache s' = [] \<and> (xs' = [] \<or> xs' = [fallback_icon s'])))"
proof -
  have "(\<lambda>kv :: CacheKey \<times> nat. names_path (fst kv)) = (\<lambda>(k, v). names_path k)"
    by (simp add: fun_eq_iff)
  then show ?thesis using clear_ok [OF ok] by simp
qed

theorem clear_removes_expected_witness:
  "(\<exists>s'. nautilus_icon_factory_clear False two_entry_factory = Some s' \<and>
          icon_cache s' = [(path_key, 2)]) \<and>
   (\<exists>s' xs'. nautilus_icon_factory_clear True two_entry_factory = Some s' \<and>
          icon_cache s' = [] \<and> ring {} s' xs' \<and> (xs' = [] \<or> xs' = [fallback_icon s']))"
proof -
  have f: "filter (\<lambda>(k, v). names_path k) (icon_cache two_entry_factory) = [(path_key, 2)]"
    by (simp add: two_entry_factory_def names_path_def folder_key_def path_key_def)
  from clear_removes_expected [OF cache_ok_two_entry_factory] quiescent_two_entry_factory
  show ?thesis unfolding f by (auto simp: cache_ok_def)
qed

text \<open>
  C10. The specification has \<^verbatim>\<open>nautilus_icon_factory_remove_from_cache\<close> remove the
  mapping that name, modifier and size identify and report whether one was there. The
  lookup key of the function has a fourth field that is never assigned. With the mapping
  for \<open>folder\<close> at size 48 under \<open>force_nominal = TRUE\<close> in the table and a stack that
  reads \<^verbatim>\<open>FALSE\<close>, the function reports that nothing was removed and the mapping
  stays.
\<close>

theorem remove_from_cache_misses_present_entry:
  "nautilus_icon_factory_remove_from_cache False (Some ''folder'') None 48 (one_entry_factory True)
     = Some (False, one_entry_factory True)"
  by (simp add: nautilus_icon_factory_remove_from_cache_def g_hash_table_remove_def
      one_entry_factory_def folder_key_def cache_key_equal_eq)

end
